theory Spec2Isabelle
  imports Complex_Main "HOL-Library.Word"
begin

unbundle bit_operations_syntax

chapter \<open>Steganographic codecs of stealth-stream-app\<close>

text \<open>
  A shallow embedding of the library module \<^verbatim>\<open>lib/steganography\<close> (the last copy in
  \<^verbatim>\<open>src/unnamed/part_002\<close>, lines 1214--1959, which holds the partial Fisher--Yates index
  generator and the length-prefixed audio and video codecs; and the text encoder of the
  second copy, lines 398--452, which differs by a capacity check).

  JavaScript strings are sequences of UTF-16 code units; the bit strings the library builds
  (\<^verbatim>\<open>'0'\<close>/\<^verbatim>\<open>'1'\<close> characters) are ordinary \<^typ>\<open>string\<close>s. Typed arrays are lists of words
  of the element width. A \<^verbatim>\<open>throw\<close> is the left injection of a sum.
\<close>

section \<open>Values, errors, collaborators\<close>

type_synonym jsstring = "16 word list"

definition js :: "string \<Rightarrow> jsstring" where
  \<comment> \<open>an ASCII literal of the source as code units\<close>
  "js s = map (\<lambda>c. of_nat (of_char c)) s"

datatype error =
    CapacityExceeded string  \<comment> \<open>\<^verbatim>\<open>throw new Error(msg)\<close> of a size check of the library\<close>
  | CollaboratorFailure string  \<comment> \<open>an exception raised by a collaborator\<close>

text \<open>
  What the library calls but does not define: CryptoJS (\<^verbatim>\<open>AES.encrypt(m, p).toString()\<close>,
  \<^verbatim>\<open>AES.decrypt(c, p).toString(CryptoJS.enc.Utf8)\<close>, which throws on malformed UTF-8,
  \<^verbatim>\<open>SHA256(p).toString()\<close>) and the platform's \<^verbatim>\<open>TextEncoder\<close>/\<^verbatim>\<open>TextDecoder\<close>.
  They are parameters of the model. \<^verbatim>\<open>AES.encrypt\<close> draws a random salt; a value of this
  record fixes one outcome per call, and the theorems hold for every such value.
\<close>

record platform =
  AES_encrypt :: "jsstring \<Rightarrow> jsstring \<Rightarrow> jsstring"
  AES_decrypt :: "jsstring \<Rightarrow> jsstring \<Rightarrow> error + jsstring"
  SHA256 :: "jsstring \<Rightarrow> jsstring"
  TextEncoder_encode :: "jsstring \<Rightarrow> 8 word list"
  TextDecoder_decode :: "8 word list \<Rightarrow> jsstring"

datatype ('r, 's) loop = Returned 'r | Completed 's
  \<comment> \<open>a loop left by \<^verbatim>\<open>return\<close>, or run to its end with its accumulator\<close>

section \<open>Double-precision products\<close>

text \<open>
  The library multiplies integers by the constants \<^verbatim>\<open>0.8\<close>, \<^verbatim>\<open>0.3\<close> and by
  \<^verbatim>\<open>state / 0x100000000\<close> in IEEE-754 binary64. Each factor is \<open>m / 2^k\<close> for a natural
  \<open>m < 2^53\<close>, so the product is the exact product of two naturals, rounded to 53
  significant bits (to nearest, ties to even), over \<open>2^k\<close>.
\<close>

fun bitLength :: "nat \<Rightarrow> nat" where
  "bitLength n = (if n = 0 then 0 else Suc (bitLength (n div 2)))"

declare bitLength.simps [simp del]

definition roundToDouble :: "nat \<Rightarrow> nat" where
  "roundToDouble p =
     (let e = bitLength p - 53;
          q = p div 2 ^ e;
          r = p mod 2 ^ e
      in if 2 * r < 2 ^ e \<or> (2 * r = 2 ^ e \<and> even q) then q * 2 ^ e else (q + 1) * 2 ^ e)"

definition floorTimes08 :: "nat \<Rightarrow> nat" where
  \<comment> \<open>\<^verbatim>\<open>Math.floor(n * 0.8)\<close>; the double \<^verbatim>\<open>0.8\<close> is \<open>7205759403792794 / 2^53\<close>\<close>
  "floorTimes08 n = roundToDouble (n * 7205759403792794) div 2 ^ 53"

definition floorTimes03 :: "nat \<Rightarrow> nat" where
  \<comment> \<open>\<^verbatim>\<open>Math.floor(n * 0.3)\<close>; the double \<^verbatim>\<open>0.3\<close> is \<open>5404319552844595 / 2^54\<close>\<close>
  "floorTimes03 n = roundToDouble (n * 5404319552844595) div 2 ^ 54"

definition ceilTimes03 :: "nat \<Rightarrow> nat" where
  \<comment> \<open>\<^verbatim>\<open>Math.ceil(n * 0.3)\<close>\<close>
  "ceilTimes03 n = (roundToDouble (n * 5404319552844595) + (2 ^ 54 - 1)) div 2 ^ 54"

section \<open>Helpers used by both classes\<close>

subsection \<open>\<^verbatim>\<open>seededPRNG\<close>\<close>

definition seededPRNG :: "jsstring \<Rightarrow> 32 word" where
  \<comment> \<open>the closure's \<^verbatim>\<open>state\<close> after the seeding loop; \<^verbatim>\<open>>>> 0\<close> is the wrap of \<^typ>\<open>32 word\<close>\<close>
  "seededPRNG seed = foldl (\<lambda>state c. state * 31 + ucast c) 0 seed"

definition prngNext :: "32 word \<Rightarrow> 32 word" where
  \<comment> \<open>one call of the closure: the new \<^verbatim>\<open>state\<close>; the call returns \<^verbatim>\<open>state / 0x100000000\<close>\<close>
  "prngNext state = state * 1664525 + 1013904223"

definition floorScaled :: "32 word \<Rightarrow> nat \<Rightarrow> nat" where
  \<comment> \<open>\<^verbatim>\<open>Math.floor((state / 0x100000000) * k)\<close>\<close>
  "floorScaled state k = roundToDouble (unat state * k) div 2 ^ 32"

subsection \<open>\<^verbatim>\<open>generateIndicesPRNG\<close>\<close>

text \<open>
  The loop \<^verbatim>\<open>for (let i = length - 1; i >= length - needed; i--)\<close>, with the counter
  kept one above \<^verbatim>\<open>i\<close> so that it stays a natural number: it runs while \<open>lo < n\<close>.
\<close>

function shuffle :: "32 word \<Rightarrow> nat list \<Rightarrow> nat \<Rightarrow> nat \<Rightarrow> nat list" where
  "shuffle state arr n lo =
     (if lo < n then
        let i = n - 1;
            state' = prngNext state;
            j = floorScaled state' (i + 1);
            tmp = arr ! i;
            arr1 = arr[i := arr ! j];
            arr2 = arr1[j := tmp]
        in shuffle state' arr2 (n - 1) lo
      else arr)"
  by pat_completeness auto
termination
  by (relation "measure (\<lambda>(state, arr, n, lo). n)") auto

declare shuffle.simps [simp del]

definition generateIndicesPRNG :: "32 word \<Rightarrow> nat \<Rightarrow> nat \<Rightarrow> error + nat list" where
  "generateIndicesPRNG prng len needed =
     (if needed > len then Inl (CapacityExceeded ''needed > length'')
      else let arr = [0..<len];
               arr' = shuffle prng arr len (len - needed)
           in Inr (drop (len - needed) arr'))"

subsection \<open>Bit strings\<close>

definition bitChar :: "nat \<Rightarrow> char" where
  "bitChar b = (if b = 0 then CHR ''0'' else CHR ''1'')"

fun toBinary :: "nat \<Rightarrow> string" where
  \<comment> \<open>\<^verbatim>\<open>n.toString(2)\<close>\<close>
  "toBinary n = (if n < 2 then [bitChar n] else toBinary (n div 2) @ [bitChar (n mod 2)])"

declare toBinary.simps [simp del]

definition padStart :: "nat \<Rightarrow> string \<Rightarrow> string" where
  \<comment> \<open>\<^verbatim>\<open>s.padStart(n, '0')\<close>\<close>
  "padStart n s = replicate (n - length s) CHR ''0'' @ s"

definition parseInt2 :: "string \<Rightarrow> nat option" where
  \<comment> \<open>\<^verbatim>\<open>parseInt(s, 2)\<close> on a string without sign or blanks; \<open>None\<close> is \<^verbatim>\<open>NaN\<close>\<close>
  "parseInt2 s =
     (let digits = takeWhile (\<lambda>c. c = CHR ''0'' \<or> c = CHR ''1'') s
      in if digits = [] then None
         else Some (foldl (\<lambda>acc c. 2 * acc + (if c = CHR ''1'' then 1 else 0)) 0 digits))"

definition substr :: "'a list \<Rightarrow> nat \<Rightarrow> nat \<Rightarrow> 'a list" where
  \<comment> \<open>\<^verbatim>\<open>s.substr(start, len)\<close>\<close>
  "substr s start len = take len (drop start s)"

fun indexOf :: "'a list \<Rightarrow> 'a list \<Rightarrow> nat option" where
  \<comment> \<open>\<^verbatim>\<open>s.indexOf(pat)\<close>, pattern first; \<open>None\<close> is \<^verbatim>\<open>-1\<close>\<close>
  "indexOf pat [] = (if pat = [] then Some 0 else None)"
| "indexOf pat (x # xs) =
     (if take (length pat) (x # xs) = pat then Some 0
      else map_option Suc (indexOf pat xs))"

definition endsWith :: "'a list \<Rightarrow> 'a list \<Rightarrow> bool" where
  \<comment> \<open>\<^verbatim>\<open>s.endsWith(t)\<close>\<close>
  "endsWith s t = (length t \<le> length s \<and> drop (length s - length t) s = t)"

definition bytesToBitString :: "8 word list \<Rightarrow> string" where
  "bytesToBitString bytes = concat (map (\<lambda>b. padStart 8 (toBinary (unat b))) bytes)"

definition bitStringToBytes :: "string \<Rightarrow> 8 word list" where
  \<comment> \<open>a \<^verbatim>\<open>NaN\<close> stored into a \<^verbatim>\<open>Uint8Array\<close> is 0\<close>
  "bitStringToBytes bits =
     map (\<lambda>i. case parseInt2 (substr bits (i * 8) 8) of None \<Rightarrow> 0 | Some v \<Rightarrow> of_nat v)
       [0..<length bits div 8]"

fun decodeRedundantBits :: "string \<Rightarrow> string" where
  "decodeRedundantBits (a # b # c # rest) =
     (let ones = length (filter (\<lambda>x. x = CHR ''1'') [a, b, c])
      in (if ones \<ge> 2 then CHR ''1'' else CHR ''0'') # decodeRedundantBits rest)"
| "decodeRedundantBits triplet = []"

definition tripleBits :: "string \<Rightarrow> string" where
  \<comment> \<open>\<^verbatim>\<open>fullBinary.split('').flatMap(bit => [bit, bit, bit]).join('')\<close>\<close>
  "tripleBits fullBinary = concat (map (\<lambda>b. [b, b, b]) fullBinary)"

fun decimal :: "nat \<Rightarrow> string" where
  \<comment> \<open>a non-negative integer in a template or a string concatenation\<close>
  "decimal n =
     (if n < 10 then [char_of (48 + n)] else decimal (n div 10) @ [char_of (48 + n mod 10)])"

declare decimal.simps [simp del]

subsection \<open>The password blocks every method repeats\<close>

definition messageToEncode :: "platform \<Rightarrow> jsstring \<Rightarrow> jsstring option \<Rightarrow> jsstring" where
  \<comment> \<open>\<^verbatim>\<open>if (password) messageToEncode = CryptoJS.AES.encrypt(...)\<close>: \<^verbatim>\<open>undefined\<close> and
     the empty string are falsy\<close>
  "messageToEncode pf secretMessage password =
     (case password of
        None \<Rightarrow> secretMessage
      | Some p \<Rightarrow> if p \<noteq> [] then AES_encrypt pf secretMessage p else secretMessage)"

definition decryptIfPassword :: "platform \<Rightarrow> jsstring \<Rightarrow> jsstring option \<Rightarrow> jsstring option" where
  \<comment> \<open>the tail of every \<^verbatim>\<open>decode\<close>: inner \<^verbatim>\<open>try\<close>/\<^verbatim>\<open>catch\<close>, and
     \<^verbatim>\<open>return decryptedMessage || null\<close>; \<open>None\<close> is \<^verbatim>\<open>null\<close>\<close>
  "decryptIfPassword pf decodedMessage password =
     (case password of
        None \<Rightarrow> Some decodedMessage
      | Some p \<Rightarrow>
          if p \<noteq> [] then
            (case AES_decrypt pf decodedMessage p of
               Inl e \<Rightarrow> None
             | Inr decryptedMessage \<Rightarrow>
                 if decryptedMessage = [] then None else Some decryptedMessage)
          else Some decodedMessage)"

definition seedOf :: "platform \<Rightarrow> jsstring option \<Rightarrow> jsstring" where
  \<comment> \<open>\<^verbatim>\<open>password ? CryptoJS.SHA256(password).toString() : 'default-seed'\<close>\<close>
  "seedOf pf password =
     (case password of
        None \<Rightarrow> js ''default-seed''
      | Some p \<Rightarrow> if p \<noteq> [] then SHA256 pf p else js ''default-seed'')"

definition tryCatchNull :: "error + jsstring option \<Rightarrow> error + jsstring option" where
  \<comment> \<open>\<^verbatim>\<open>try { body } catch { return null; }\<close> around the whole body of a \<^verbatim>\<open>decode\<close>\<close>
  "tryCatchNull body = (case body of Inl e \<Rightarrow> Inr None | Inr r \<Rightarrow> Inr r)"

definition binaryOfString :: "jsstring \<Rightarrow> string" where
  \<comment> \<open>\<^verbatim>\<open>s.split('').map(char => char.charCodeAt(0).toString(2).padStart(8, '0')).join('')\<close>\<close>
  "binaryOfString s = concat (map (\<lambda>char. padStart 8 (toBinary (unat char))) s)"

definition endMarker :: string where
  "endMarker = ''1111111111111110''"

definition textOfBinary :: "string \<Rightarrow> jsstring" where
  \<comment> \<open>the loop \<^verbatim>\<open>for (i = 0; i < messageBinary.length; i += 8)\<close> that keeps the chunks of
     length 8: \<^verbatim>\<open>String.fromCharCode(parseInt(byte, 2))\<close>, \<^verbatim>\<open>NaN\<close> giving code unit 0\<close>
  "textOfBinary messageBinary =
     map (\<lambda>i. case parseInt2 (substr messageBinary (i * 8) 8) of None \<Rightarrow> 0 | Some v \<Rightarrow> of_nat v)
       [0..<length messageBinary div 8]"


section \<open>\<^verbatim>\<open>TextSteganography\<close>\<close>

definition ZERO_WIDTH_SPACE :: "16 word" where "ZERO_WIDTH_SPACE = 0x200B"
definition ZERO_WIDTH_NON_JOINER :: "16 word" where "ZERO_WIDTH_NON_JOINER = 0x200C"
definition ZERO_WIDTH_JOINER :: "16 word" where "ZERO_WIDTH_JOINER = 0x200D"
definition ZERO_WIDTH_NO_BREAK_SPACE :: "16 word" where "ZERO_WIDTH_NO_BREAK_SPACE = 0xFEFF"

definition isZeroWidth :: "16 word \<Rightarrow> bool" where
  \<comment> \<open>the character class of the regular expressions: the four marker characters\<close>
  "isZeroWidth c =
     (c = ZERO_WIDTH_SPACE \<or> c = ZERO_WIDTH_NON_JOINER \<or> c = ZERO_WIDTH_JOINER
      \<or> c = ZERO_WIDTH_NO_BREAK_SPACE)"

definition markerOfPair :: "string \<Rightarrow> jsstring" where
  \<comment> \<open>the \<^verbatim>\<open>switch (pair)\<close> of \<^verbatim>\<open>encode\<close>; no case, nothing appended\<close>
  "markerOfPair pair =
     (if pair = ''00'' then [ZERO_WIDTH_SPACE]
      else if pair = ''01'' then [ZERO_WIDTH_NON_JOINER]
      else if pair = ''10'' then [ZERO_WIDTH_JOINER]
      else if pair = ''11'' then [ZERO_WIDTH_NO_BREAK_SPACE]
      else [])"

definition pairOfMarker :: "16 word \<Rightarrow> string" where
  \<comment> \<open>the \<^verbatim>\<open>switch (char)\<close> of \<^verbatim>\<open>decode\<close>\<close>
  "pairOfMarker char =
     (if char = ZERO_WIDTH_SPACE then ''00''
      else if char = ZERO_WIDTH_NON_JOINER then ''01''
      else if char = ZERO_WIDTH_JOINER then ''10''
      else if char = ZERO_WIDTH_NO_BREAK_SPACE then ''11''
      else [])"

function interleave :: "jsstring \<Rightarrow> string \<Rightarrow> nat \<Rightarrow> nat \<Rightarrow> jsstring \<Rightarrow> jsstring" where
  \<comment> \<open>the \<^verbatim>\<open>for\<close> loop of \<^verbatim>\<open>encode\<close>, from \<^verbatim>\<open>i\<close>, \<^verbatim>\<open>binaryIndex\<close> and \<^verbatim>\<open>result\<close>\<close>
  "interleave coverText binaryWithMarker i binaryIndex result =
     (if i < length coverText \<and> binaryIndex < length binaryWithMarker then
        let result1 = result @ [coverText ! i]
        in if binaryIndex + 1 < length binaryWithMarker then
             interleave coverText binaryWithMarker (i + 1) (binaryIndex + 2)
               (result1 @ markerOfPair (substr binaryWithMarker binaryIndex 2))
           else interleave coverText binaryWithMarker (i + 1) binaryIndex result1
      else result)"
  by pat_completeness auto
termination
  by (relation "measure (\<lambda>(coverText, binaryWithMarker, i, binaryIndex, result). length coverText - i)")
    auto

declare interleave.simps [simp del]

definition embedText :: "jsstring \<Rightarrow> string \<Rightarrow> jsstring" where
  \<comment> \<open>the loop, then \<^verbatim>\<open>result += coverText.slice(result.replace(/[...]/g, '').length)\<close>\<close>
  "embedText coverText binaryWithMarker =
     (let result = interleave coverText binaryWithMarker 0 0 []
      in result @ drop (length (filter (\<lambda>c. \<not> isZeroWidth c) result)) coverText)"

definition TextSteganography_encode ::
    "platform \<Rightarrow> jsstring \<Rightarrow> jsstring \<Rightarrow> jsstring option \<Rightarrow> jsstring \<times> (error + jsstring)" where
  \<comment> \<open>lines 1312--1360 (and 178--226); the pair is the cover text as the call leaves it, and
     the outcome\<close>
  "TextSteganography_encode pf coverText secretMessage password =
     (let binaryMessage = binaryOfString (messageToEncode pf secretMessage password);
          binaryWithMarker = binaryMessage @ endMarker
      in (coverText, Inr (embedText coverText binaryWithMarker)))"

definition TextSteganography_encode_checked ::
    "platform \<Rightarrow> jsstring \<Rightarrow> jsstring \<Rightarrow> jsstring option \<Rightarrow> jsstring \<times> (error + jsstring)" where
  \<comment> \<open>the same method in the second copy of the file, lines 398--452, with its check
     \<^verbatim>\<open>if (coverText.length < requiredLength) throw ...\<close>\<close>
  "TextSteganography_encode_checked pf coverText secretMessage password =
     (let binaryMessage = binaryOfString (messageToEncode pf secretMessage password);
          binaryWithMarker = binaryMessage @ endMarker;
          requiredLength = (length binaryWithMarker + 1) div 2
      in if length coverText < requiredLength then
           (coverText,
            Inl (CapacityExceeded (''Cover text too short. Needs '' @ decimal requiredLength
                   @ '' characters, but has '' @ decimal (length coverText) @ ''.'')))
         else (coverText, Inr (embedText coverText binaryWithMarker)))"

definition TextSteganography_decode ::
    "platform \<Rightarrow> jsstring \<Rightarrow> jsstring option \<Rightarrow> error + jsstring option" where
  "TextSteganography_decode pf stegoText password =
     tryCatchNull
       (let zeroWidthChars = filter isZeroWidth stegoText
        in if length zeroWidthChars = 0 then Inr None
           else
             let binary = concat (map pairOfMarker zeroWidthChars)
             in case indexOf endMarker binary of
                  None \<Rightarrow> Inr None
                | Some endIndex \<Rightarrow>
                    let messageBinary = take endIndex binary;
                        decodedMessage = textOfBinary messageBinary
                    in Inr (decryptIfPassword pf decodedMessage password))"

section \<open>\<^verbatim>\<open>ImageSteganography\<close>\<close>

text \<open>
  The carrier is the canvas; its pixel buffer is the \<^verbatim>\<open>Uint8ClampedArray\<close> that
  \<^verbatim>\<open>getImageData\<close> copies out and \<^verbatim>\<open>putImageData\<close> writes back (four bytes a pixel).
\<close>

definition bitOfChar :: "char \<Rightarrow> 'a::len word" where
  \<comment> \<open>\<^verbatim>\<open>parseInt(bits[i])\<close> under \<^verbatim>\<open>|\<close>: a \<^verbatim>\<open>NaN\<close> counts as 0\<close>
  "bitOfChar c = (if c = CHR ''1'' then 1 else 0)"

fun embedRed :: "8 word list \<Rightarrow> string \<Rightarrow> nat \<Rightarrow> 8 word list" where
  \<comment> \<open>\<^verbatim>\<open>data[i * 4] = (data[i * 4] & 0xFE) | bit\<close> for the bits from index \<^verbatim>\<open>i\<close> on\<close>
  "embedRed data [] i = data"
| "embedRed data (b # bs) i =
     embedRed (data[i * 4 := (data ! (i * 4) AND 0xFE) OR bitOfChar b]) bs (i + 1)"

definition ImageSteganography_encode ::
    "platform \<Rightarrow> 8 word list \<Rightarrow> jsstring \<Rightarrow> jsstring option
      \<Rightarrow> 8 word list \<times> (error + 8 word list)" where
  \<comment> \<open>the pair is the canvas as the call leaves it, and the outcome (the same canvas)\<close>
  "ImageSteganography_encode pf canvas secretMessage password =
     (let data = canvas;
          binaryMessage = binaryOfString (messageToEncode pf secretMessage password) @ endMarker
      in if length binaryMessage * 4 > length data then
           (canvas, Inl (CapacityExceeded ''Message too large for this image''))
         else
           let data' = embedRed data binaryMessage 0
           in (data', Inr data'))"

function extractRed :: "8 word list \<Rightarrow> nat \<Rightarrow> string \<Rightarrow> string" where
  \<comment> \<open>the reading loop of \<^verbatim>\<open>decode\<close> with its \<^verbatim>\<open>break\<close>\<close>
  "extractRed data i binary =
     (if i * 4 < length data then
        let binary' = binary @ [bitChar (unat (data ! (i * 4) AND 1))]
        in if endsWith binary' endMarker then binary'
           else extractRed data (i + 1) binary'
      else binary)"
  by pat_completeness auto
termination
  by (relation "measure (\<lambda>(data, i, binary). length data - i * 4)") auto

declare extractRed.simps [simp del]

definition ImageSteganography_decode ::
    "platform \<Rightarrow> 8 word list \<Rightarrow> jsstring option \<Rightarrow> error + jsstring option" where
  "ImageSteganography_decode pf canvas password =
     tryCatchNull
       (let data = canvas;
            binary = extractRed data 0 []
        in case indexOf endMarker binary of
             None \<Rightarrow> Inr None
           | Some endIndex \<Rightarrow>
               let messageBinary = take endIndex binary;
                   decodedMessage = textOfBinary messageBinary
               in Inr (decryptIfPassword pf decodedMessage password))"

section \<open>\<^verbatim>\<open>AudioSteganography\<close>\<close>

text \<open>
  The carrier is the \<^verbatim>\<open>Int16Array\<close> of PCM samples that the collaborator
  (\<^verbatim>\<open>fileToAudioBuffer\<close>, then the conversion to 16 bits) hands over; \<^verbatim>\<open>decode\<close> takes the
  outcome of that step, since its \<^verbatim>\<open>try\<close> encloses it. Writing the WAV container is left to
  the collaborator.
\<close>

definition headerBinaryOf :: "string \<Rightarrow> string" where
  \<comment> \<open>\<^verbatim>\<open>bytesToBitString(new Uint8Array(header.split('').map(c => c.charCodeAt(0))))\<close>\<close>
  "headerBinaryOf header = bytesToBitString (map (\<lambda>c. of_nat (of_char c)) header)"

definition AudioSteganography_calculateCapacity :: "16 word list \<Rightarrow> int" where
  "AudioSteganography_calculateCapacity samples =
     (let capacityBits = floorTimes08 (length samples);
          payloadBits = capacityBits div 3;
          payloadBytes = payloadBits div 8
      in max 0 (int payloadBytes - (7 + 4)))"

definition frameBits :: "platform \<Rightarrow> string \<Rightarrow> jsstring \<Rightarrow> string" where
  \<comment> \<open>\<^verbatim>\<open>fullBinary = headerBinary + lenBinary + messageBinary\<close>\<close>
  "frameBits pf header message =
     (let headerBinary = headerBinaryOf header;
          msgBytes = TextEncoder_encode pf message;
          lenBinary = padStart 32 (toBinary (length msgBytes));
          messageBinary = bytesToBitString msgBytes
      in headerBinary @ lenBinary @ messageBinary)"

fun embedLSB :: "16 word list \<Rightarrow> nat list \<Rightarrow> string \<Rightarrow> 16 word list" where
  \<comment> \<open>\<^verbatim>\<open>modifiedSamples[indices[i]] = (modifiedSamples[indices[i]] & 0xFFFE) | bit\<close>\<close>
  "embedLSB samples (sampleIndex # indices) (b # bits) =
     embedLSB (samples[sampleIndex := (samples ! sampleIndex AND 0xFFFE) OR bitOfChar b])
       indices bits"
| "embedLSB samples indices bits = samples"

definition AudioSteganography_encode ::
    "platform \<Rightarrow> 16 word list \<Rightarrow> jsstring \<Rightarrow> jsstring option
      \<Rightarrow> 16 word list \<times> (error + 16 word list)" where
  \<comment> \<open>the pair is \<^verbatim>\<open>samples\<close> as the call leaves it, and the outcome
     (\<^verbatim>\<open>modifiedSamples\<close>)\<close>
  "AudioSteganography_encode pf samples secretMessage password =
     (let fullBinary = frameBits pf ''USTEGA1'' (messageToEncode pf secretMessage password);
          redundantBinary = tripleBits fullBinary;
          capacityBits = floorTimes08 (length samples)
      in if length redundantBinary > capacityBits then
           (samples, Inl (CapacityExceeded ''Message too large for this audio file''))
         else
           let prng = seededPRNG (seedOf pf password)
           in case generateIndicesPRNG prng (length samples) (length redundantBinary) of
                Inl e \<Rightarrow> (samples, Inl e)
              | Inr indices \<Rightarrow> (samples, Inr (embedLSB samples indices redundantBinary)))"

definition extractFrame :: "platform \<Rightarrow> string \<Rightarrow> string \<Rightarrow> nat \<Rightarrow> jsstring option" where
  \<comment> \<open>the final attempt of \<^verbatim>\<open>decode\<close>, from \<^verbatim>\<open>lenBits\<close> on, before decryption; a
     \<^verbatim>\<open>NaN\<close> length makes \<^verbatim>\<open>substr\<close> empty and the comparison false\<close>
  "extractFrame pf headerBinary decodedAll headerIndex =
     (let lenBits = substr decodedAll (headerIndex + length headerBinary) 32
      in case parseInt2 lenBits of
           None \<Rightarrow> Some (TextDecoder_decode pf (bitStringToBytes []))
         | Some msgLen \<Rightarrow>
             let totalMsgBits = msgLen * 8;
                 messageBits = substr decodedAll (headerIndex + length headerBinary + 32) totalMsgBits
             in if length messageBits < totalMsgBits then None
                else Some (TextDecoder_decode pf (bitStringToBytes messageBits)))"

fun scanBits ::
    "platform \<Rightarrow> string \<Rightarrow> jsstring option \<Rightarrow> string \<Rightarrow> string
      \<Rightarrow> (jsstring option, string) loop" where
  \<comment> \<open>the reading loop of the audio and video \<^verbatim>\<open>decode\<close>: the bits still to be read (in
     index order) and \<^verbatim>\<open>redundantStream\<close>; it returns early once header, length and
     message are all decoded\<close>
  "scanBits pf headerBinary password [] redundantStream = Completed redundantStream"
| "scanBits pf headerBinary password (b # bits) redundantStream =
     (let redundantStream' = redundantStream @ [b];
          minRedundantNeeded = (length headerBinary + 32) * 3
      in if length redundantStream' \<ge> minRedundantNeeded then
           let decodedSoFar = decodeRedundantBits redundantStream'
           in case indexOf headerBinary decodedSoFar of
                None \<Rightarrow> scanBits pf headerBinary password bits redundantStream'
              | Some headerIndex \<Rightarrow>
                  if length decodedSoFar \<ge> headerIndex + length headerBinary + 32 then
                    (case parseInt2 (substr decodedSoFar (headerIndex + length headerBinary) 32) of
                       None \<Rightarrow> scanBits pf headerBinary password bits redundantStream'
                     | Some msgLen \<Rightarrow>
                         let totalMsgBits = msgLen * 8
                         in if length decodedSoFar
                                 \<ge> headerIndex + length headerBinary + 32 + totalMsgBits then
                              let messageBits =
                                    substr decodedSoFar (headerIndex + length headerBinary + 32)
                                      totalMsgBits;
                                  decodedMessage =
                                    TextDecoder_decode pf (bitStringToBytes messageBits)
                              in Returned (decryptIfPassword pf decodedMessage password)
                            else scanBits pf headerBinary password bits redundantStream')
                  else scanBits pf headerBinary password bits redundantStream'
         else scanBits pf headerBinary password bits redundantStream')"

definition finalAttempt ::
    "platform \<Rightarrow> string \<Rightarrow> jsstring option \<Rightarrow> string \<Rightarrow> jsstring option" where
  \<comment> \<open>``try a final decode on all collected stream''\<close>
  "finalAttempt pf headerBinary password redundantStream =
     (let decodedAll = decodeRedundantBits redundantStream
      in case indexOf headerBinary decodedAll of
           None \<Rightarrow> None
         | Some headerIndex \<Rightarrow>
             (case extractFrame pf headerBinary decodedAll headerIndex of
                None \<Rightarrow> None
              | Some decodedMessage \<Rightarrow> decryptIfPassword pf decodedMessage password))"

definition AudioSteganography_decode ::
    "platform \<Rightarrow> error + 16 word list \<Rightarrow> jsstring option \<Rightarrow> error + jsstring option" where
  "AudioSteganography_decode pf loaded password =
     tryCatchNull
       (case loaded of
          Inl e \<Rightarrow> Inl e
        | Inr samples \<Rightarrow>
            let prng = seededPRNG (seedOf pf password);
                capacityBits = floorTimes08 (length samples)
            in case generateIndicesPRNG prng (length samples) capacityBits of
                 Inl e \<Rightarrow> Inl e
               | Inr indices \<Rightarrow>
                   let headerBinary = headerBinaryOf ''USTEGA1'';
                       bits = map (\<lambda>i. bitChar (unat (samples ! i AND 1))) indices
                   in case scanBits pf headerBinary password bits [] of
                        Returned r \<Rightarrow> Inr r
                      | Completed redundantStream \<Rightarrow>
                          Inr (finalAttempt pf headerBinary password redundantStream))"

section \<open>\<^verbatim>\<open>VideoSteganography\<close>\<close>

text \<open>
  The carrier is what the frame-extraction collaborator (\<^verbatim>\<open>videoToFrames\<close>) hands over:
  the \<^verbatim>\<open>data\<close> array of every frame (RGBA, four bytes a pixel) and the picture size.
  \<^verbatim>\<open>encode\<close> writes into these arrays in place. Assembling the container is left to
  the collaborator.
\<close>

record video =
  frames :: "8 word list list"
  width :: nat
  height :: nat

definition frameSeed :: "jsstring \<Rightarrow> nat \<Rightarrow> jsstring" where
  \<comment> \<open>\<^verbatim>\<open>seed + ':' + frameIdx\<close>\<close>
  "frameSeed seed frameIdx = seed @ js '':'' @ js (decimal frameIdx)"

fun embedBlue :: "8 word list \<Rightarrow> nat list \<Rightarrow> string \<Rightarrow> 8 word list" where
  \<comment> \<open>the inner loop of \<^verbatim>\<open>encode\<close>: it stops with the indices or with the bits\<close>
  "embedBlue data (pixel # pixelIndices) (b # bits) =
     embedBlue (data[pixel * 4 + 2 := (data ! (pixel * 4 + 2) AND 0xFE) OR bitOfChar b])
       pixelIndices bits"
| "embedBlue data pixelIndices bits = data"

fun embedFrames ::
    "jsstring \<Rightarrow> string \<Rightarrow> nat \<Rightarrow> nat \<Rightarrow> 8 word list list
      \<Rightarrow> 8 word list list \<times> error option" where
  \<comment> \<open>the frame loop of \<^verbatim>\<open>encode\<close> from \<^verbatim>\<open>frameIdx\<close> and \<^verbatim>\<open>bitIndex\<close>, over the frames
     not yet visited: these frames as the loop leaves them, and the exception that ended it\<close>
  "embedFrames seed redundantBinary frameIdx bitIndex [] = ([], None)"
| "embedFrames seed redundantBinary frameIdx bitIndex (data # rest) =
     (if bitIndex < length redundantBinary then
        let pixels = length data div 4;
            framePrng = seededPRNG (frameSeed seed frameIdx);
            availableThisFrame = min (ceilTimes03 pixels) (length redundantBinary - bitIndex)
        in case generateIndicesPRNG framePrng pixels availableThisFrame of
             Inl e \<Rightarrow> (data # rest, Some e)
           | Inr pixelIndices \<Rightarrow>
               let data' = embedBlue data pixelIndices (drop bitIndex redundantBinary);
                   bitIndex' = bitIndex + min (length pixelIndices) (length redundantBinary - bitIndex);
                   (rest', thrown) = embedFrames seed redundantBinary (frameIdx + 1) bitIndex' rest
               in (data' # rest', thrown)
      else (data # rest, None))"

definition VideoSteganography_encode ::
    "platform \<Rightarrow> video \<Rightarrow> jsstring \<Rightarrow> jsstring option \<Rightarrow> video \<times> (error + video)" where
  \<comment> \<open>the pair is the extracted frames as the call leaves them, and the outcome (the same
     frames, to be assembled)\<close>
  "VideoSteganography_encode pf v secretMessage password =
     (let fullBinary = frameBits pf ''VSTEGA1'' (messageToEncode pf secretMessage password);
          redundantBinary = tripleBits fullBinary;
          totalPixels = length (frames v) * width v * height v;
          capacityBits = floorTimes03 totalPixels
      in if length redundantBinary > capacityBits then
           (v, Inl (CapacityExceeded ''Message too large for this video''))
         else
           let seed = seedOf pf password;
               (frames', thrown) = embedFrames seed redundantBinary 0 0 (frames v);
               v' = v\<lparr>frames := frames'\<rparr>
           in case thrown of
                Some e \<Rightarrow> (v', Inl e)
              | None \<Rightarrow> (v', Inr v'))"

fun scanFrames ::
    "platform \<Rightarrow> string \<Rightarrow> jsstring \<Rightarrow> jsstring option \<Rightarrow> nat \<Rightarrow> 8 word list list \<Rightarrow> string
      \<Rightarrow> error + (jsstring option, string) loop" where
  \<comment> \<open>the frame loop of \<^verbatim>\<open>decode\<close> from \<^verbatim>\<open>frameIdx\<close> and \<^verbatim>\<open>redundantStream\<close>\<close>
  "scanFrames pf headerBinary seed password frameIdx [] redundantStream =
     Inr (Completed redundantStream)"
| "scanFrames pf headerBinary seed password frameIdx (data # rest) redundantStream =
     (let pixels = length data div 4;
          framePrng = seededPRNG (frameSeed seed frameIdx);
          maxThisFrame = ceilTimes03 pixels
      in case generateIndicesPRNG framePrng pixels maxThisFrame of
           Inl e \<Rightarrow> Inl e
         | Inr pixelIndices \<Rightarrow>
             let bits = map (\<lambda>p. bitChar (unat (data ! (p * 4 + 2) AND 1))) pixelIndices
             in case scanBits pf headerBinary password bits redundantStream of
                  Returned r \<Rightarrow> Inr (Returned r)
                | Completed redundantStream' \<Rightarrow>
                    scanFrames pf headerBinary seed password (frameIdx + 1) rest redundantStream')"

definition VideoSteganography_decode ::
    "platform \<Rightarrow> error + video \<Rightarrow> jsstring option \<Rightarrow> error + jsstring option" where
  "VideoSteganography_decode pf loaded password =
     tryCatchNull
       (case loaded of
          Inl e \<Rightarrow> Inl e
        | Inr v \<Rightarrow>
            let headerBinary = headerBinaryOf ''VSTEGA1'';
                seed = seedOf pf password
            in case scanFrames pf headerBinary seed password 0 (frames v) [] of
                 Inl e \<Rightarrow> Inl e
               | Inr (Returned r) \<Rightarrow> Inr r
               | Inr (Completed redundantStream) \<Rightarrow>
                   Inr (finalAttempt pf headerBinary password redundantStream))"

definition VideoSteganography_calculateCapacity :: "error + video \<Rightarrow> int" where
  \<comment> \<open>its \<^verbatim>\<open>catch\<close> returns 0\<close>
  "VideoSteganography_calculateCapacity loaded =
     (case loaded of
        Inl e \<Rightarrow> 0
      | Inr v \<Rightarrow>
          let totalPixels = length (frames v) * width v * height v;
              capacityBits = floorTimes03 totalPixels;
              payloadBits = capacityBits div 3;
              payloadBytes = payloadBits div 8
          in max 0 (int payloadBytes - (7 + 4)))"

section \<open>Notions of the specification\<close>

definition isBitString :: "string \<Rightarrow> bool" where
  "isBitString s = (\<forall>c\<in>set s. c = CHR ''0'' \<or> c = CHR ''1'')"

fun flipsAtMostOnePerTriplet :: "string \<Rightarrow> string \<Rightarrow> bool" where
  \<comment> \<open>the first string is the second with at most one bit flipped in each consecutive triplet\<close>
  "flipsAtMostOnePerTriplet [] [] = True"
| "flipsAtMostOnePerTriplet (x # y # z # r) (a # b # c # t) =
     (isBitString [x, y, z] \<and> length (filter (\<lambda>(u, v). u \<noteq> v) [(x, a), (y, b), (z, c)]) \<le> 1
      \<and> flipsAtMostOnePerTriplet r t)"
| "flipsAtMostOnePerTriplet r t = False"

definition isPrintableAscii :: "jsstring \<Rightarrow> bool" where
  "isPrintableAscii s = (\<forall>c\<in>set s. 32 \<le> unat c \<and> unat c \<le> 126)"

fun markersOf :: "string \<Rightarrow> jsstring" where
  \<comment> \<open>the marker characters of a bit string, a pair of bits at a time\<close>
  "markersOf (a # b # rest) = markerOfPair [a, b] @ markersOf rest"
| "markersOf rest = []"

definition binValue :: "string \<Rightarrow> nat" where
  \<comment> \<open>the number a bit string denotes\<close>
  "binValue s = foldl (\<lambda>acc c. 2 * acc + (if c = CHR ''1'' then 1 else 0)) 0 s"

text \<open>
  A small instance of the collaborators, to run the model on concrete inputs: a cipher that
  prefixes the password, and the identity on ASCII for the text encoder and decoder.
\<close>

definition toyPlatform :: platform where
  "toyPlatform =
     \<lparr> AES_encrypt = (\<lambda>m p. p @ js '':'' @ m),
       AES_decrypt =
         (\<lambda>c p. if take (length p + 1) c = p @ js '':'' then Inr (drop (length p + 1) c)
                else Inl (CollaboratorFailure ''Malformed UTF-8 data'')),
       SHA256 = (\<lambda>p. p),
       TextEncoder_encode = map ucast,
       TextDecoder_decode = map ucast \<rparr>"

definition selectedPixels :: "jsstring \<Rightarrow> nat \<Rightarrow> 8 word list \<Rightarrow> nat \<Rightarrow> nat list" where
  \<comment> \<open>the pixel indices the index generator selects in frame \<open>i\<close>, from the frame's seed\<close>
  "selectedPixels seed i data count =
     (case generateIndicesPRNG (seededPRNG (frameSeed seed i)) (length data div 4) count of
        Inl e \<Rightarrow> []
      | Inr pixelIndices \<Rightarrow> pixelIndices)"

definition blueBitsRead :: "8 word list \<Rightarrow> nat list \<Rightarrow> string" where
  \<comment> \<open>the least-significant bits of the blue channel at the given pixels, in order\<close>
  "blueBitsRead data pixelIndices = map (\<lambda>p. bitChar (unat (data ! (p * 4 + 2) AND 1))) pixelIndices"

fun bitIndexAfter :: "string \<Rightarrow> nat \<Rightarrow> 8 word list list \<Rightarrow> nat" where
  \<comment> \<open>\<^verbatim>\<open>bitIndex\<close> after the encoder has visited the given frames, from \<^verbatim>\<open>bitIndex = b\<close>\<close>
  "bitIndexAfter bits b [] = b"
| "bitIndexAfter bits b (data # rest) =
     bitIndexAfter bits (b + min (ceilTimes03 (length data div 4)) (length bits - b)) rest"

fun blueStream :: "jsstring \<Rightarrow> nat \<Rightarrow> 8 word list list \<Rightarrow> string" where
  \<comment> \<open>the bits the decoder reads from the given frames, the first one being frame \<open>i0\<close>\<close>
  "blueStream seed i0 [] = []"
| "blueStream seed i0 (data # rest) =
     blueBitsRead data (selectedPixels seed i0 data (ceilTimes03 (length data div 4)))
       @ blueStream seed (i0 + 1) rest"

section \<open>Facts about the double-precision products\<close>

lemma bitLength_0 [simp]: "bitLength 0 = 0"
  by (simp add: bitLength.simps)

lemma bitLength_pos: "0 < bitLength p \<Longrightarrow> p \<noteq> 0"
  by (cases "p = 0") auto

lemma bitLength_bounds: "n \<noteq> 0 \<Longrightarrow> 2 ^ (bitLength n - 1) \<le> n \<and> n < 2 ^ bitLength n"
proof (induction n rule: bitLength.induct)
  case (1 n)
  show ?case
  proof (cases "n div 2 = 0")
    case True
    with 1 have "n = 1" by (simp add: div_eq_0_iff)
    then show ?thesis by (simp add: bitLength.simps)
  next
    case False
    with 1 have IH: "2 ^ (bitLength (n div 2) - 1) \<le> n div 2" "n div 2 < 2 ^ bitLength (n div 2)"
      by auto
    have pos: "bitLength (n div 2) \<noteq> 0" using False by (simp add: bitLength.simps)
    have bl: "bitLength n = Suc (bitLength (n div 2))" using 1 by (simp add: bitLength.simps)
    have "(2::nat) ^ (bitLength n - 1) = 2 * 2 ^ (bitLength (n div 2) - 1)"
      using pos bl by (cases "bitLength (n div 2)") auto
    moreover have "2 * (n div 2) \<le> n" by simp
    ultimately have lo: "2 ^ (bitLength n - 1) \<le> n" using IH(1) by linarith
    have hi: "n < 2 ^ bitLength n" using IH(2) bl by simp
    show ?thesis using lo hi by simp
  qed
qed

lemma bitLength_small: "p < 2 ^ 53 \<Longrightarrow> bitLength p \<le> 53"
proof (rule ccontr)
  assume a: "p < 2 ^ 53" and b: "\<not> bitLength p \<le> 53"
  then have p0: "p \<noteq> 0" by (intro bitLength_pos) simp
  from b have "53 \<le> bitLength p - 1" by simp
  then have "(2::nat) ^ 53 \<le> 2 ^ (bitLength p - 1)" by (rule power_increasing) simp
  with bitLength_bounds[OF p0] a show False by linarith
qed

lemma roundToDouble_exact: "p < 2 ^ 53 \<Longrightarrow> roundToDouble p = p"
  using bitLength_small[of p] by (simp add: roundToDouble_def Let_def)

lemma half_ulp_le:
  assumes "0 < bitLength p - 53"
  shows "2 ^ (bitLength p - 53) \<le> 2 * (p div 2 ^ 53)"
proof -
  define e where "e = bitLength p - 53"
  have e: "bitLength p = e + 53" "0 < e" using assms by (auto simp: e_def)
  then have p0: "p \<noteq> 0" by (intro bitLength_pos) simp
  have "(2::nat) ^ (e + 52) \<le> p" using bitLength_bounds[OF p0] e by (simp add: add.commute)
  then have "2 ^ (e + 52) div 2 ^ 53 \<le> p div 2 ^ 53" by (rule div_le_mono)
  moreover have "(2::nat) ^ (e + 52) div 2 ^ 53 = 2 ^ (e - 1)"
  proof -
    obtain d where d: "e = Suc d" using e(2) by (cases e) auto
    have "(2::nat) ^ (e + 52) = 2 ^ d * 2 ^ 53" unfolding d by (simp add: power_add)
    then show ?thesis by (simp add: d)
  qed
  ultimately have "2 ^ (e - 1) \<le> p div 2 ^ 53" by simp
  moreover have "(2::nat) ^ e = 2 * 2 ^ (e - 1)" using e(2) by (cases e) auto
  ultimately show ?thesis unfolding e_def by linarith
qed

lemma roundToDouble_upper: "roundToDouble p \<le> p + p div 2 ^ 53"
proof -
  define e where "e = bitLength p - 53"
  define q where "q = p div 2 ^ e"
  define r where "r = p mod 2 ^ e"
  have p: "p = q * 2 ^ e + r" unfolding q_def r_def by (rule div_mult_mod_eq [symmetric])
  show ?thesis
  proof (cases "2 * r < 2 ^ e \<or> (2 * r = 2 ^ e \<and> even q)")
    case True
    then have "roundToDouble p = q * 2 ^ e"
      by (simp add: roundToDouble_def Let_def e_def q_def r_def)
    then show ?thesis using p by linarith
  next
    case False
    then have rd: "roundToDouble p = (q + 1) * 2 ^ e"
      by (simp add: roundToDouble_def Let_def e_def q_def r_def)
    from False have half: "2 ^ e \<le> 2 * r" by auto
    have "r < 2 ^ e" by (simp add: r_def)
    with half have "0 < e" by (cases e) auto
    then have "2 ^ e \<le> 2 * (p div 2 ^ 53)" unfolding e_def by (rule half_ulp_le)
    moreover have "(q + 1) * 2 ^ e = q * 2 ^ e + 2 ^ e" by (simp add: algebra_simps)
    ultimately show ?thesis using rd p half by linarith
  qed
qed

lemma roundToDouble_lower: "p \<le> roundToDouble p + p div 2 ^ 53"
proof -
  define e where "e = bitLength p - 53"
  define q where "q = p div 2 ^ e"
  define r where "r = p mod 2 ^ e"
  have p: "p = q * 2 ^ e + r" unfolding q_def r_def by (rule div_mult_mod_eq [symmetric])
  show ?thesis
  proof (cases "2 * r < 2 ^ e \<or> (2 * r = 2 ^ e \<and> even q)")
    case True
    then have rd: "roundToDouble p = q * 2 ^ e"
      by (simp add: roundToDouble_def Let_def e_def q_def r_def)
    show ?thesis
    proof (cases "e = 0")
      case True
      then have "r = 0" by (simp add: r_def)
      then show ?thesis using rd p by simp
    next
      case False
      then have "2 ^ e \<le> 2 * (p div 2 ^ 53)" unfolding e_def using half_ulp_le by simp
      moreover have "2 * r \<le> 2 ^ e" using True by auto
      ultimately show ?thesis using rd p by linarith
    qed
  next
    case False
    then have rd: "roundToDouble p = (q + 1) * 2 ^ e"
      by (simp add: roundToDouble_def Let_def e_def q_def r_def)
    have "r < 2 ^ e" by (simp add: r_def)
    moreover have "(q + 1) * 2 ^ e = q * 2 ^ e + 2 ^ e" by (simp add: algebra_simps)
    ultimately show ?thesis using rd p by linarith
  qed
qed

text \<open>Rounding never crosses a number that a double holds exactly.\<close>

lemma roundToDouble_ge_representable:
  assumes m: "m < 2 ^ 53" and le: "m * 2 ^ s \<le> p"
  shows "m * 2 ^ s \<le> roundToDouble p"
proof -
  define e where "e = bitLength p - 53"
  define q where "q = p div 2 ^ e"
  have down: "q * 2 ^ e \<le> roundToDouble p"
    by (simp add: roundToDouble_def Let_def e_def q_def)
  show ?thesis
  proof (cases "e \<le> s")
    case True
    then obtain d where d: "s = e + d" using le_Suc_ex by blast
    have "m * 2 ^ s = (m * 2 ^ d) * 2 ^ e" by (simp add: d power_add)
    moreover have "m * 2 ^ d \<le> q"
    proof -
      have "(m * 2 ^ d) * 2 ^ e div 2 ^ e \<le> p div 2 ^ e"
        using le calculation by (intro div_le_mono) simp
      then show ?thesis by (simp add: q_def)
    qed
    ultimately have "m * 2 ^ s \<le> q * 2 ^ e" by (metis mult_le_mono1)
    with down show ?thesis by linarith
  next
    case False
    then have se: "s < e" by simp
    then have epos: "0 < e" by simp
    then have bl: "bitLength p = e + 53" by (simp add: e_def)
    then have p0: "p \<noteq> 0" by (intro bitLength_pos) simp
    have plo: "(2::nat) ^ (e + 52) \<le> p"
      using bitLength_bounds[OF p0] bl by (simp add: add.commute)
    have "(2::nat) ^ (e + 52) = 2 ^ 52 * 2 ^ e" by (simp add: power_add)
    then have "2 ^ 52 * 2 ^ e div 2 ^ e \<le> p div 2 ^ e" using plo by (intro div_le_mono) simp
    then have "2 ^ 52 \<le> q" by (simp add: q_def)
    then have "2 ^ 52 * 2 ^ e \<le> q * 2 ^ e" by simp
    moreover have "m * 2 ^ s \<le> 2 ^ 52 * 2 ^ e"
    proof -
      have "m * 2 ^ s \<le> 2 ^ 53 * 2 ^ s" using m by (intro mult_le_mono1) simp
      also have "\<dots> = (2::nat) ^ (53 + s)" by (simp only: power_add)
      also have "\<dots> \<le> 2 ^ (52 + e)" using se by (intro power_increasing) auto
      also have "\<dots> = 2 ^ 52 * 2 ^ e" by (simp only: power_add)
      finally show ?thesis .
    qed
    ultimately show ?thesis using down by linarith
  qed
qed

lemma roundToDouble_le_representable:
  assumes m: "m \<le> 2 ^ 53" and le: "p \<le> m * 2 ^ s"
  shows "roundToDouble p \<le> m * 2 ^ s"
proof -
  define e where "e = bitLength p - 53"
  define q where "q = p div 2 ^ e"
  define r where "r = p mod 2 ^ e"
  have p: "p = q * 2 ^ e + r" unfolding q_def r_def by (rule div_mult_mod_eq [symmetric])
  show ?thesis
  proof (cases "r = 0")
    case True
    then have m0: "p mod 2 ^ (bitLength p - 53) = 0" by (simp add: r_def e_def)
    then have "p div 2 ^ (bitLength p - 53) * 2 ^ (bitLength p - 53) = p"
      using div_mult_mod_eq [of p "2 ^ (bitLength p - 53)"] by simp
    with m0 have "roundToDouble p = p"
      by (simp add: roundToDouble_def Let_def)
    with le show ?thesis by simp
  next
    case False
    then have epos: "0 < e" by (cases e) (auto simp: r_def)
    have up: "roundToDouble p \<le> (q + 1) * 2 ^ e"
      by (simp add: roundToDouble_def Let_def e_def q_def r_def)
    have bl: "bitLength p = e + 53" using epos by (simp add: e_def)
    then have p0: "p \<noteq> 0" by (intro bitLength_pos) simp
    have plo: "(2::nat) ^ (e + 52) \<le> p"
      using bitLength_bounds[OF p0] bl by (simp add: add.commute)
    have e_le_s: "e \<le> s"
    proof (rule ccontr)
      assume "\<not> e \<le> s"
      then have se: "s < e" by simp
      have "m * 2 ^ s \<le> 2 ^ 53 * 2 ^ s" using m by (rule mult_le_mono1)
      also have "\<dots> = (2::nat) ^ (53 + s)" by (simp only: power_add)
      also have "\<dots> \<le> 2 ^ (e + 52)" using se by (intro power_increasing) auto
      finally have "p \<le> 2 ^ (e + 52)" using le by (rule le_trans[rotated])
      with plo have "p = 2 ^ (e + 52)" by (rule le_antisym[rotated])
      then have "p = 2 ^ 52 * 2 ^ e" by (simp only: power_add mult.commute)
      then have "p mod 2 ^ e = 0" by (simp only: mod_mult_self2_is_0)
      with False show False by (simp add: r_def)
    qed
    then obtain d where d: "s = e + d" using le_Suc_ex by blast
    have ms: "m * 2 ^ s = (m * 2 ^ d) * 2 ^ e" by (simp add: d power_add)
    have "q < m * 2 ^ d"
    proof (rule ccontr)
      assume "\<not> q < m * 2 ^ d"
      then have "m * 2 ^ d \<le> q" by simp
      then have "(m * 2 ^ d) * 2 ^ e \<le> q * 2 ^ e" by (rule mult_le_mono1)
      moreover have "0 < r" using False by simp
      ultimately show False using p ms le by linarith
    qed
    then have "(q + 1) * 2 ^ e \<le> (m * 2 ^ d) * 2 ^ e" by (intro mult_le_mono1) simp
    with up have "roundToDouble p \<le> (m * 2 ^ d) * 2 ^ e" by (rule le_trans)
    then show ?thesis by (simp only: ms)
  qed
qed

text \<open>\<^verbatim>\<open>Math.floor(n * 0.8)\<close> is the floor of the exact product.\<close>

lemma floorTimes08_arith:
  fixes n q :: nat
  assumes "5 * q \<le> 4 * n" "4 * n < 5 * q + 5" "n < 1125899906842624"
  shows "n * 7205759403792794 + q < (q + 1) * 9007199254740992"
proof -
  have "4 * n \<le> 5 * q + 4" using assms by simp
  then have "(4 * n) * 9007199254740992 \<le> (5 * q + 4) * 9007199254740992"
    by (rule mult_le_mono1)
  then have "5 * (n * 7205759403792794) \<le> (5 * q + 4) * 9007199254740992 + 2 * n"
    by simp
  moreover have "2 * n + 5 * q < 9007199254740992" using assms by simp
  ultimately have "5 * (n * 7205759403792794 + q) < 5 * ((q + 1) * 9007199254740992)"
    by simp
  then show ?thesis by simp
qed

lemma floorTimes08_exact:
  assumes n: "n < 2 ^ 50"
  shows "floorTimes08 n = (4 * n) div 5"
proof -
  define p where "p = n * 7205759403792794"
  define q where "q = (4 * n) div 5"
  have q5: "5 * q \<le> 4 * n" "4 * n < 5 * q + 5" unfolding q_def by presburger+
  have n': "n < 1125899906842624" using n by simp
  have qb: "q < 2 ^ 53" using q5 n' by simp
  have "q * 9007199254740992 \<le> p" using q5 unfolding p_def by linarith
  then have "q * 2 ^ 53 \<le> p" by simp
  from roundToDouble_ge_representable[OF qb this]
  have lo: "q * 9007199254740992 \<le> roundToDouble p" by simp
  have pqq: "p + q < (q + 1) * 9007199254740992"
    unfolding p_def using q5 n' by (rule floorTimes08_arith)
  then have pq: "p < (q + 1) * 9007199254740992" by simp
  then have "p div 2 ^ 53 < q + 1" by (simp add: less_mult_imp_div_less)
  then have "p div 2 ^ 53 \<le> q" by simp
  with pqq have hi: "roundToDouble p < (q + 1) * 9007199254740992"
    using roundToDouble_upper[of p] by linarith
  have "roundToDouble p div 9007199254740992 = q"
    using lo hi by (intro div_nat_eqI) (simp_all add: mult.commute)
  then show ?thesis by (simp add: floorTimes08_def p_def q_def)
qed

lemma floorTimes08_real:
  assumes n: "n < 2 ^ 50"
  shows "int (floorTimes08 n) = \<lfloor>real n * 0.8\<rfloor>"
proof -
  have "real n * 0.8 = real (4 * n) / real 5" by simp
  then have "\<lfloor>real n * 0.8\<rfloor> = int ((4 * n) div 5)"
    by (simp only: floor_divide_of_nat_eq)
  then show ?thesis using floorTimes08_exact[OF n] by simp
qed

lemma floorTimes08_le: "floorTimes08 n \<le> n"
proof -
  define p where "p = n * 7205759403792794"
  have "p div 2 ^ 53 \<le> n"
  proof -
    have "p \<le> n * 2 ^ 53" unfolding p_def by simp
    then have "p div 2 ^ 53 \<le> n * 2 ^ 53 div 2 ^ 53" by (rule div_le_mono)
    then show ?thesis by simp
  qed
  then have "roundToDouble p \<le> n * 7205759403792794 + n"
    using roundToDouble_upper[of p] unfolding p_def by linarith
  also have "\<dots> \<le> n * 9007199254740992" by simp
  finally have "roundToDouble p div 9007199254740992 \<le> n * 9007199254740992 div 9007199254740992"
    by (rule div_le_mono)
  then show ?thesis by (simp add: floorTimes08_def p_def)
qed

text \<open>\<^verbatim>\<open>Math.floor(prng() * (i + 1))\<close> is an index from 0 to \<^verbatim>\<open>i\<close>.\<close>

lemma floorScaled_less:
  assumes k: "0 < k"
  shows "floorScaled state k < k"
proof -
  define p where "p = unat state * k"
  have "unat state < 2 ^ LENGTH(32)" by (rule unsigned_less)
  then have st: "unat state \<le> 4294967295" by simp
  then have pk: "p \<le> 4294967295 * k" unfolding p_def by simp
  have "p div 2 ^ 53 < k"
  proof -
    have "p < k * 2 ^ 53" using pk k by simp
    then show ?thesis by (simp add: less_mult_imp_div_less)
  qed
  then have "roundToDouble p < k * 4294967296"
    using roundToDouble_upper[of p] pk by linarith
  then have "roundToDouble p div 4294967296 < k"
    by (simp add: less_mult_imp_div_less)
  then show ?thesis by (simp add: floorScaled_def p_def)
qed

text \<open>\<^verbatim>\<open>Math.ceil(n * 0.3)\<close> never exceeds \<^verbatim>\<open>n\<close>, and is the ceiling of the exact product.\<close>

lemma ceilTimes03_le: "ceilTimes03 n \<le> n"
proof -
  define p where "p = n * 5404319552844595"
  have "p div 2 ^ 53 \<le> n"
  proof -
    have "p \<le> n * 2 ^ 53" unfolding p_def by simp
    then have "p div 2 ^ 53 \<le> n * 2 ^ 53 div 2 ^ 53" by (rule div_le_mono)
    then show ?thesis by simp
  qed
  then have "roundToDouble p \<le> n * 5404319552844595 + n"
    using roundToDouble_upper[of p] unfolding p_def by linarith
  then have "roundToDouble p + 18014398509481983 < (n + 1) * 18014398509481984" by simp
  then have "(roundToDouble p + 18014398509481983) div 18014398509481984 < n + 1"
    by (simp add: less_mult_imp_div_less)
  then show ?thesis by (simp add: ceilTimes03_def p_def)
qed

lemma ceilTimes03_exact:
  assumes n: "n < 2 ^ 50"
  shows "ceilTimes03 n = (3 * n + 9) div 10"
proof -
  define p where "p = n * 5404319552844595"
  define c where "c = (3 * n + 9) div 10"
  have c10: "3 * n \<le> 10 * c" "10 * c < 3 * n + 10" unfolding c_def by presburger+
  have n': "n < 1125899906842624" using n by simp
  have cb: "c \<le> 2 ^ 53" using c10 n' by simp
  have "p \<le> c * 18014398509481984" using c10 unfolding p_def by linarith
  then have "p \<le> c * 2 ^ 54" by simp
  from roundToDouble_le_representable[OF cb this]
  have hi: "roundToDouble p \<le> c * 18014398509481984" by simp
  have pd: "p div 2 ^ 53 \<le> n"
  proof -
    have "p \<le> n * 2 ^ 53" unfolding p_def by simp
    then have "p div 2 ^ 53 \<le> n * 2 ^ 53 div 2 ^ 53" by (rule div_le_mono)
    then show ?thesis by simp
  qed
  have lo: "c * 18014398509481984 < roundToDouble p + 18014398509481984 \<or> n = 0"
    using roundToDouble_lower[of p] pd c10 n' unfolding p_def by linarith
  show ?thesis
  proof (cases "n = 0")
    case True
    then show ?thesis by (simp add: ceilTimes03_def roundToDouble_exact)
  next
    case False
    with lo have lo': "c * 18014398509481984 \<le> roundToDouble p + 18014398509481983" by simp
    have "(roundToDouble p + 18014398509481983) div 18014398509481984 = c"
      using lo' hi by (intro div_nat_eqI) (simp_all add: mult.commute)
    then show ?thesis by (simp add: ceilTimes03_def p_def c_def)
  qed
qed

lemma ceilTimes03_real:
  assumes n: "n < 2 ^ 50"
  shows "int (ceilTimes03 n) = \<lceil>real n * 0.3\<rceil>"
proof -
  have "real n * 0.3 = real_of_int (int (3 * n)) / real_of_int 10" by simp
  then have "\<lceil>real n * 0.3\<rceil> = - ((- int (3 * n)) div 10)"
    by (simp only: ceiling_divide_eq_div)
  also have "\<dots> = int ((3 * n + 9) div 10)" by (simp add: zdiv_int)
  finally show ?thesis using ceilTimes03_exact[OF n] by simp
qed

section \<open>The index generator\<close>

lemma shuffle_length: "length (shuffle state arr n lo) = length arr"
proof (induction state arr n lo rule: shuffle.induct)
  case (1 state arr n lo)
  show ?case
  proof (cases "lo < n")
    case True
    then show ?thesis
      using 1 by (subst shuffle.simps) (simp add: Let_def)
  next
    case False
    then show ?thesis by (subst shuffle.simps) simp
  qed
qed

lemma shuffle_set_distinct:
  "n \<le> length arr \<Longrightarrow>
     set (shuffle state arr n lo) = set arr \<and> distinct (shuffle state arr n lo) = distinct arr"
proof (induction state arr n lo rule: shuffle.induct)
  case (1 state arr n lo)
  show ?case
  proof (cases "lo < n")
    case True
    define i where "i = n - 1"
    define state' where "state' = prngNext state"
    define j where "j = floorScaled state' (i + 1)"
    define arr2 where "arr2 = arr[i := arr ! j, j := arr ! i]"
    have i: "i < length arr" using True "1.prems" by (simp add: i_def)
    have "j < i + 1" unfolding j_def by (rule floorScaled_less) simp
    then have j: "j < length arr" using i by simp
    have step: "shuffle state arr n lo = shuffle state' arr2 (n - 1) lo"
      using True by (subst shuffle.simps) (simp add: Let_def i_def state'_def j_def arr2_def)
    have len: "n - 1 \<le> length arr2" using "1.prems" by (simp add: arr2_def)
    have IH: "set (shuffle state' arr2 (n - 1) lo) = set arr2
        \<and> distinct (shuffle state' arr2 (n - 1) lo) = distinct arr2"
      using "1.IH"[OF True refl refl refl refl refl refl] len
      unfolding arr2_def j_def state'_def i_def by simp
    have "set arr2 = set arr" unfolding arr2_def using i j by (rule set_swap)
    moreover have "distinct arr2 = distinct arr" unfolding arr2_def using i j by (rule distinct_swap)
    ultimately show ?thesis using step IH by simp
  next
    case False
    then show ?thesis by (subst (1 2) shuffle.simps) simp
  qed
qed

lemma generateIndicesPRNG_ok:
  assumes "needed \<le> len"
  shows "\<exists>indices. generateIndicesPRNG prng len needed = Inr indices
           \<and> length indices = needed \<and> distinct indices \<and> (\<forall>i\<in>set indices. i < len)"
proof -
  define arr' where "arr' = shuffle prng [0..<len] len (len - needed)"
  have sd: "set arr' = {0..<len}" "distinct arr'"
    using shuffle_set_distinct[of len "[0..<len]" prng "len - needed"] by (simp_all add: arr'_def)
  have l: "length arr' = len" by (simp add: arr'_def shuffle_length)
  have g: "generateIndicesPRNG prng len needed = Inr (drop (len - needed) arr')"
    using assms by (simp add: generateIndicesPRNG_def arr'_def)
  have "length (drop (len - needed) arr') = needed" using l assms by simp
  moreover have "distinct (drop (len - needed) arr')" using sd(2) by simp
  moreover have "\<forall>i\<in>set (drop (len - needed) arr'). i < len"
    using sd(1) set_drop_subset[of "len - needed" arr'] by auto
  ultimately show ?thesis using g by blast
qed

lemma generateIndicesPRNG_fail:
  "len < needed \<Longrightarrow> generateIndicesPRNG prng len needed = Inl (CapacityExceeded ''needed > length'')"
  by (simp add: generateIndicesPRNG_def)

text \<open>
  Claim C5. For every seed string \<open>s\<close>, universe size \<open>n\<close> and count \<open>c\<close>: if \<open>c \<le> n\<close>, the
  index generator (\<^verbatim>\<open>generateIndicesPRNG\<close> on the generator that \<^verbatim>\<open>seededPRNG(s)\<close> returns)
  yields exactly \<open>c\<close> pairwise distinct integers, each in \<open>[0, n)\<close>; if \<open>c > n\<close>, it fails with
  the error of its size check. The outcome is a function of \<open>(s, n, c)\<close> alone: the generator
  state is created by the call of \<^verbatim>\<open>seededPRNG\<close> and nothing else is read, so two calls with
  the same arguments give the same sequence.
\<close>

theorem index_generator_distinct_in_range:
  "(c \<le> n \<longrightarrow>
      (\<exists>indices. generateIndicesPRNG (seededPRNG s) n c = Inr indices
         \<and> length indices = c \<and> distinct indices \<and> (\<forall>i\<in>set indices. i < n)))
   \<and> (n < c \<longrightarrow>
      generateIndicesPRNG (seededPRNG s) n c = Inl (CapacityExceeded ''needed > length''))"
  using generateIndicesPRNG_ok generateIndicesPRNG_fail by blast

theorem index_generator_distinct_in_range_witness:
  "(4::nat) \<le> 10
   \<and> (\<exists>indices. generateIndicesPRNG (seededPRNG (js ''default-seed'')) 10 4 = Inr indices
         \<and> length indices = 4 \<and> distinct indices \<and> (\<forall>i\<in>set indices. i < 10))
   \<and> (10::nat) < 11
   \<and> generateIndicesPRNG (seededPRNG (js ''default-seed'')) 10 11
       = Inl (CapacityExceeded ''needed > length'')"
  using index_generator_distinct_in_range [of 4 10 "js ''default-seed''"]
    index_generator_distinct_in_range [of 11 10 "js ''default-seed''"]
  by simp

section \<open>Majority vote\<close>

lemma tripleBits_Cons: "tripleBits (c # b) = c # c # c # tripleBits b"
  by (simp add: tripleBits_def)

lemma tripleBits_Nil: "tripleBits [] = []"
  by (simp add: tripleBits_def)

text \<open>
  Claim C6. For every bit string \<open>b\<close> and every string \<open>r\<close> obtained from the triplicated form
  of \<open>b\<close> by flipping at most one bit within each consecutive triplet, the majority-vote
  collapse \<^verbatim>\<open>decodeRedundantBits\<close> of \<open>r\<close> is exactly \<open>b\<close>.
\<close>

theorem majority_vote_corrects_one_flip_per_triplet:
  "isBitString b \<Longrightarrow> flipsAtMostOnePerTriplet r (tripleBits b) \<Longrightarrow> decodeRedundantBits r = b"
proof (induction b arbitrary: r)
  case Nil
  then show ?case by (cases r) (simp_all add: tripleBits_Nil)
next
  case (Cons c b)
  from Cons.prems(2) obtain x y z r' where r: "r = x # y # z # r'"
    by (cases r rule: decodeRedundantBits.cases) (simp_all add: tripleBits_Cons)
  from Cons.prems have c: "c = CHR ''0'' \<or> c = CHR ''1''" and b: "isBitString b"
    by (simp_all add: isBitString_def)
  from Cons.prems(2) have xyz: "isBitString [x, y, z]"
      "length (filter (\<lambda>(u, v). u \<noteq> v) [(x, c), (y, c), (z, c)]) \<le> 1"
      and rest: "flipsAtMostOnePerTriplet r' (tripleBits b)"
    by (simp_all add: r tripleBits_Cons)
  have "decodeRedundantBits r' = b" using Cons.IH[OF b rest] .
  moreover have "(if length (filter (\<lambda>x. x = CHR ''1'') [x, y, z]) \<ge> 2 then CHR ''1'' else CHR ''0'') = c"
    using c xyz by (auto simp: isBitString_def split: if_splits)
  ultimately show ?case by (simp add: r Let_def)
qed

theorem majority_vote_corrects_one_flip_per_triplet_witness:
  "isBitString ''10'' \<and> flipsAtMostOnePerTriplet ''110010'' (tripleBits ''10'')
   \<and> decodeRedundantBits ''110010'' = ''10''"
proof -
  have h1: "isBitString ''10''" by (simp add: isBitString_def)
  have h2: "flipsAtMostOnePerTriplet ''110010'' (tripleBits ''10'')"
    by (simp add: isBitString_def tripleBits_def)
  show ?thesis using h1 h2 majority_vote_corrects_one_flip_per_triplet [OF h1 h2] by simp
qed

section \<open>Audio capacity\<close>

text \<open>
  Claim C3, as the code has it. For an audio carrier with \<open>n\<close> PCM samples (\<open>n\<close> below \<open>2^50\<close>,
  where the double-precision product \<open>n \<times> 0.8\<close> has the floor of the exact one),
  \<^verbatim>\<open>calculateCapacity\<close> returns \<open>max(0, floor(floor(n \<times> 0.8) / 3 / 8) - 11)\<close>: the result is
  clamped at 0 by \<^verbatim>\<open>Math.max\<close>.
\<close>

theorem calculateCapacity_clamped:
  assumes "length samples < 2 ^ 50"
  shows "AudioSteganography_calculateCapacity samples
           = max 0 (\<lfloor>real_of_int \<lfloor>real (length samples) * 0.8\<rfloor> / 3 / 8\<rfloor> - 11)"
proof -
  define n where "n = length samples"
  define cb where "cb = floorTimes08 n"
  have cb: "\<lfloor>real n * 0.8\<rfloor> = int cb" using floorTimes08_real[of n] assms by (simp add: n_def cb_def)
  have "real_of_int (int cb) / 3 / 8 = real (cb) / real 24" by simp
  then have "\<lfloor>real_of_int (int cb) / 3 / 8\<rfloor> = int (cb div 24)"
    by (simp only: floor_divide_of_nat_eq)
  moreover have "cb div 3 div 8 = cb div 24" by (simp add: div_mult2_eq[symmetric])
  ultimately show ?thesis
    unfolding AudioSteganography_calculateCapacity_def Let_def n_def[symmetric] cb_def[symmetric] cb
    by simp
qed

theorem calculateCapacity_clamped_witness:
  "length (replicate 400 (0 :: 16 word)) < 2 ^ 50
   \<and> AudioSteganography_calculateCapacity (replicate 400 0) = 2"
proof -
  have h: "length (replicate 400 (0 :: 16 word)) < 2 ^ 50" by simp
  show ?thesis using h calculateCapacity_clamped [OF h] by simp
qed

text \<open>
  The claim as stated, without the clamp, fails on the empty carrier: the formula gives
  \<open>-11\<close>, the code returns 0.
\<close>

theorem calculateCapacity_unclamped_counterexample:
  "AudioSteganography_calculateCapacity []
     \<noteq> \<lfloor>real_of_int \<lfloor>real (length ([] :: 16 word list)) * 0.8\<rfloor> / 3 / 8\<rfloor> - 11"
  by (simp add: AudioSteganography_calculateCapacity_def floorTimes08_def roundToDouble_exact)

section \<open>Bit strings of characters\<close>

lemma isBitString_append [simp]: "isBitString (xs @ ys) = (isBitString xs \<and> isBitString ys)"
  by (auto simp: isBitString_def)

lemma isBitString_Cons [simp]:
  "isBitString (x # xs) = ((x = CHR ''0'' \<or> x = CHR ''1'') \<and> isBitString xs)"
  by (auto simp: isBitString_def)

lemma isBitString_Nil [simp]: "isBitString []"
  by (simp add: isBitString_def)

lemma isBitString_replicate [simp]: "isBitString (replicate n CHR ''0'')"
  by (simp add: isBitString_def)

lemma isBitString_take: "isBitString xs \<Longrightarrow> isBitString (take n xs)"
  by (auto simp: isBitString_def dest: in_set_takeD)

lemma isBitString_drop: "isBitString xs \<Longrightarrow> isBitString (drop n xs)"
  by (auto simp: isBitString_def dest: in_set_dropD)

lemma bitChar_cases [simp]: "bitChar b = CHR ''0'' \<or> bitChar b = CHR ''1''"
  by (simp add: bitChar_def)

lemma toBinary_bits: "isBitString (toBinary n)"
  by (induction n rule: toBinary.induct) (subst toBinary.simps, simp)

lemma toBinary_length: "n < 2 ^ k \<Longrightarrow> 0 < k \<Longrightarrow> length (toBinary n) \<le> k"
proof (induction n arbitrary: k rule: toBinary.induct)
  case (1 n)
  show ?case
  proof (cases "n < 2")
    case True
    then show ?thesis using "1.prems" by (subst toBinary.simps) simp
  next
    case False
    then obtain k' where k: "k = Suc k'" using "1.prems" by (cases k) auto
    have "k' \<noteq> 0" using False "1.prems" k by (cases k') auto
    moreover have "n div 2 < 2 ^ k'" using "1.prems"(1) k by auto
    ultimately have "length (toBinary (n div 2)) \<le> k'" using "1.IH"[OF False] by simp
    then show ?thesis using False k by (subst toBinary.simps) simp
  qed
qed

lemma toBinary_nonempty: "toBinary n \<noteq> []"
  by (subst toBinary.simps) simp

lemma binValue_append: "binValue (xs @ [c]) = 2 * binValue xs + (if c = CHR ''1'' then 1 else 0)"
  by (simp add: binValue_def)

lemma bit_of_bitChar: "b < 2 \<Longrightarrow> (if bitChar b = CHR ''1'' then 1 else 0) = b"
  by (cases "b = 0") (auto simp: bitChar_def)

lemma binValue_toBinary: "binValue (toBinary n) = n"
proof (induction n rule: toBinary.induct)
  case (1 n)
  show ?case
  proof (cases "n < 2")
    case True
    then have "n = 0 \<or> n = 1" by auto
    then show ?thesis by (subst toBinary.simps) (auto simp: bitChar_def binValue_def)
  next
    case False
    have "binValue (toBinary n) = 2 * binValue (toBinary (n div 2)) + (if bitChar (n mod 2) = CHR ''1'' then 1 else 0)"
      using False by (subst toBinary.simps) (simp add: binValue_append)
    also have "\<dots> = 2 * (n div 2) + n mod 2"
      using "1.IH"[OF False] bit_of_bitChar[of "n mod 2"] by simp
    finally show ?thesis by simp
  qed
qed

lemma binValue_zeros: "binValue (replicate z CHR ''0'' @ s) = binValue s"
proof -
  have "foldl (\<lambda>acc c. 2 * acc + (if c = CHR ''1'' then 1 else 0)) (0::nat) (replicate z CHR ''0'') = 0"
    by (induction z) simp_all
  then show ?thesis by (simp add: binValue_def)
qed

lemma parseInt2_bits: "isBitString s \<Longrightarrow> s \<noteq> [] \<Longrightarrow> parseInt2 s = Some (binValue s)"
proof -
  assume a: "isBitString s" "s \<noteq> []"
  then have tw: "takeWhile (\<lambda>c. c = CHR ''0'' \<or> c = CHR ''1'') s = s"
    by (intro takeWhile_eq_all_conv[THEN iffD2]) (auto simp: isBitString_def)
  show ?thesis unfolding parseInt2_def Let_def binValue_def tw using a(2) by simp
qed

lemma padStart_bits [simp]: "isBitString (padStart k (toBinary n))"
  by (simp add: padStart_def toBinary_bits)

lemma padStart_length: "n < 2 ^ k \<Longrightarrow> 0 < k \<Longrightarrow> length (padStart k (toBinary n)) = k"
  using toBinary_length[of n k] by (simp add: padStart_def)

lemma parseInt2_padStart: "parseInt2 (padStart k (toBinary n)) = Some n"
proof -
  have "padStart k (toBinary n) \<noteq> []" by (simp add: padStart_def toBinary_nonempty)
  then have "parseInt2 (padStart k (toBinary n)) = Some (binValue (padStart k (toBinary n)))"
    by (intro parseInt2_bits) simp_all
  also have "binValue (padStart k (toBinary n)) = n"
    unfolding padStart_def by (simp only: binValue_zeros binValue_toBinary)
  finally show ?thesis .
qed

lemma padStart_hd_zero:
  assumes "n < 2 ^ k"
  shows "\<exists>t. padStart (Suc k) (toBinary n) = CHR ''0'' # t"
proof (cases "k = 0")
  case True
  then have "n = 0" using assms by simp
  then show ?thesis by (subst toBinary.simps) (simp add: padStart_def bitChar_def True)
next
  case False
  then have "length (toBinary n) \<le> k" using assms by (intro toBinary_length) auto
  then obtain d where "Suc k - length (toBinary n) = Suc d"
    by (cases "Suc k - length (toBinary n)") auto
  then show ?thesis by (simp add: padStart_def)
qed

text \<open>The eight bits of a printable character begin with a zero.\<close>

lemma byte_shape:
  assumes "n < 128"
  shows "\<exists>b1 b2 b3 b4 b5 b6 b7. padStart 8 (toBinary n) = [CHR ''0'', b1, b2, b3, b4, b5, b6, b7]"
proof -
  have "n < 2 ^ 7" using assms by simp
  from padStart_hd_zero[OF this] obtain t where t: "padStart 8 (toBinary n) = CHR ''0'' # t"
    by (auto simp: eval_nat_numeral)
  have "length (padStart 8 (toBinary n)) = 8" using assms by (intro padStart_length) auto
  then have "length t = 7" using t by simp
  then obtain b1 b2 b3 b4 b5 b6 b7 where "t = [b1, b2, b3, b4, b5, b6, b7]"
    by (auto simp: eval_nat_numeral length_Suc_conv)
  with t show ?thesis by simp
qed


section \<open>Searching the end marker\<close>

lemma indexOf_here: "take (length pat) xs = pat \<Longrightarrow> indexOf pat xs = Some 0"
  by (cases xs) auto

lemma indexOf_least:
  "indexOf pat xs = Some n \<Longrightarrow>
     take (length pat) (drop n xs) = pat \<and> (\<forall>p<n. take (length pat) (drop p xs) \<noteq> pat)"
proof (induction xs arbitrary: n)
  case Nil
  then show ?case by (auto split: if_splits)
next
  case (Cons x xs)
  show ?case
  proof (cases "take (length pat) (x # xs) = pat")
    case True
    with Cons.prems have "n = 0" by simp
    with True show ?thesis by simp
  next
    case False
    with Cons.prems obtain m where m: "indexOf pat xs = Some m" "n = Suc m" by auto
    from Cons.IH[OF m(1)] False m(2) show ?thesis
      by (auto simp: less_Suc_eq_0_disj)
  qed
qed

lemma indexOf_None: "indexOf pat xs = None \<Longrightarrow> take (length pat) (drop p xs) \<noteq> pat"
proof (induction xs arbitrary: p)
  case Nil
  then show ?case by (auto split: if_splits)
next
  case (Cons x xs)
  then show ?case by (cases p) (auto split: if_splits)
qed

lemma skip_byte_before_zero:
  assumes "indexOf endMarker (CHR ''0'' # t) = Some n"
  shows "indexOf endMarker ([CHR ''0'', b1, b2, b3, b4, b5, b6, b7] @ CHR ''0'' # t) = Some (n + 8)"
  using assms by (simp add: endMarker_def)

lemma skip_byte_before_marker:
  "indexOf endMarker ([CHR ''0'', b1, b2, b3, b4, b5, b6, b7] @ endMarker @ rest) = Some 8"
  by (simp add: endMarker_def)

lemma binaryOfString_Cons:
  "binaryOfString (c # s) = padStart 8 (toBinary (unat c)) @ binaryOfString s"
  by (simp add: binaryOfString_def)

lemma binaryOfString_Nil [simp]: "binaryOfString [] = []"
  by (simp add: binaryOfString_def)

lemma isPrintableAscii_Cons:
  "isPrintableAscii (c # s) = (32 \<le> unat c \<and> unat c \<le> 126 \<and> isPrintableAscii s)"
  by (auto simp: isPrintableAscii_def)

lemma indexOf_endMarker_printable:
  "isPrintableAscii pl \<Longrightarrow>
     indexOf endMarker (binaryOfString pl @ endMarker @ rest) = Some (8 * length pl)"
proof (induction pl)
  case Nil
  then show ?case by (simp add: indexOf_here)
next
  case (Cons c pl)
  then have c: "unat c < 128" and pl: "isPrintableAscii pl" by (simp_all add: isPrintableAscii_Cons)
  from byte_shape[OF c] obtain b1 b2 b3 b4 b5 b6 b7
    where byte: "padStart 8 (toBinary (unat c)) = [CHR ''0'', b1, b2, b3, b4, b5, b6, b7]" by blast
  show ?case
  proof (cases pl)
    case Nil
    then show ?thesis
      using skip_byte_before_marker[of b1 b2 b3 b4 b5 b6 b7 rest]
      by (simp add: binaryOfString_Cons byte)
  next
    case (Cons d pl')
    with pl have d: "unat d < 128" by (simp add: isPrintableAscii_Cons)
    from byte_shape[OF d] obtain t where t: "padStart 8 (toBinary (unat d)) = CHR ''0'' # t" by blast
    have tail: "binaryOfString pl @ endMarker @ rest
                  = CHR ''0'' # (t @ binaryOfString pl' @ endMarker @ rest)"
      by (simp add: Cons binaryOfString_Cons t)
    have "indexOf endMarker (CHR ''0'' # (t @ binaryOfString pl' @ endMarker @ rest))
            = Some (8 * length pl)"
      using Cons.IH[OF pl] by (simp only: tail)
    from skip_byte_before_zero[OF this, of b1 b2 b3 b4 b5 b6 b7]
    show ?thesis by (simp add: binaryOfString_Cons byte tail)
  qed
qed

lemma binaryOfString_length:
  "\<forall>c\<in>set pl. unat c < 256 \<Longrightarrow> length (binaryOfString pl) = 8 * length pl"
proof (induction pl)
  case Nil
  then show ?case by simp
next
  case (Cons c pl)
  then have "unat c < 2 ^ 8" by simp
  then have "length (padStart 8 (toBinary (unat c))) = 8" by (intro padStart_length) auto
  then show ?case using Cons by (simp add: binaryOfString_Cons)
qed

lemma binaryOfString_bits: "isBitString (binaryOfString pl)"
  by (induction pl) (simp_all add: binaryOfString_Cons)

lemma printable_lt_256: "isPrintableAscii pl \<Longrightarrow> \<forall>c\<in>set pl. unat c < 256"
  by (auto simp: isPrintableAscii_def)

section \<open>Bytes back from bits\<close>

lemma textOfBinary_Nil [simp]: "textOfBinary [] = []"
  by (simp add: textOfBinary_def)

lemma textOfBinary_byte:
  assumes "length b = 8"
  shows "textOfBinary (b @ rest)
           = (case parseInt2 b of None \<Rightarrow> 0 | Some v \<Rightarrow> of_nat v) # textOfBinary rest"
proof -
  have n: "length (b @ rest) div 8 = Suc (length rest div 8)" using assms by simp
  have upt: "[0..<Suc (length rest div 8)] = 0 # map Suc [0..<length rest div 8]"
    by (simp add: upt_conv_Cons map_Suc_upt del: upt_Suc)
  have s0: "substr (b @ rest) 0 8 = b" using assms by (simp add: substr_def)
  have sS: "\<And>i. substr (b @ rest) (8 + i * 8) 8 = substr rest (i * 8) 8"
    using assms by (simp add: substr_def)
  show ?thesis
    unfolding textOfBinary_def n upt by (simp add: s0 sS comp_def del: upt_Suc)
qed

lemma textOfBinary_binaryOfString:
  "\<forall>c\<in>set pl. unat c < 256 \<Longrightarrow> textOfBinary (binaryOfString pl) = pl"
proof (induction pl)
  case Nil
  then show ?case by simp
next
  case (Cons c pl)
  then have "unat c < 2 ^ 8" by simp
  then have len: "length (padStart 8 (toBinary (unat c))) = 8" by (intro padStart_length) auto
  show ?case
    using Cons by (simp add: binaryOfString_Cons textOfBinary_byte[OF len] parseInt2_padStart)
qed

section \<open>Marker characters\<close>

lemma markerOfPair_zeroWidth: "c \<in> set (markerOfPair pair) \<Longrightarrow> isZeroWidth c"
  by (auto simp: markerOfPair_def isZeroWidth_def split: if_splits)

lemma markersOf_zeroWidth: "c \<in> set (markersOf bs) \<Longrightarrow> isZeroWidth c"
  by (induction bs rule: markersOf.induct) (auto dest: markerOfPair_zeroWidth)

lemma filter_markersOf [simp]: "filter isZeroWidth (markersOf bs) = markersOf bs"
  by (simp add: markersOf_zeroWidth)

lemma pairOfMarker_markerOfPair:
  "isBitString [a, b] \<Longrightarrow> concat (map pairOfMarker (markerOfPair [a, b])) = [a, b]"
  by (auto simp: markerOfPair_def pairOfMarker_def ZERO_WIDTH_SPACE_def
      ZERO_WIDTH_NON_JOINER_def ZERO_WIDTH_JOINER_def ZERO_WIDTH_NO_BREAK_SPACE_def)

lemma markers_roundtrip:
  "isBitString bs \<Longrightarrow> even (length bs) \<Longrightarrow> concat (map pairOfMarker (markersOf bs)) = bs"
proof (induction bs rule: markersOf.induct)
  case (1 a b rest)
  then have "isBitString [a, b]" "isBitString rest" "even (length rest)" by auto
  then show ?case using 1 pairOfMarker_markerOfPair[of a b] by simp
qed simp_all

lemma markersOf_nonempty: "isBitString bs \<Longrightarrow> 2 \<le> length bs \<Longrightarrow> markersOf bs \<noteq> []"
proof -
  assume a: "isBitString bs" "2 \<le> length bs"
  then obtain x y rest where bs: "bs = x # y # rest"
    by (cases bs; cases "tl bs") auto
  with a show ?thesis by (auto simp: markerOfPair_def)
qed

section \<open>The text codec\<close>

lemma interleave_markers:
  "even (length bwm - bi) \<Longrightarrow> length bwm - bi \<le> 2 * (length coverText - i) \<Longrightarrow>
   \<forall>c\<in>set coverText. \<not> isZeroWidth c \<Longrightarrow>
     filter isZeroWidth (interleave coverText bwm i bi result)
       = filter isZeroWidth result @ markersOf (drop bi bwm)"
proof (induction coverText bwm i bi result rule: interleave.induct)
  case (1 coverText bwm i bi result)
  show ?case
  proof (cases "i < length coverText \<and> bi < length bwm")
    case True
    then have two: "bi + 1 < length bwm" using "1.prems"(1) by presburger
    then obtain x y rest where d: "drop bi bwm = x # y # rest"
      by (metis Cons_nth_drop_Suc Suc_eq_plus1 Suc_lessD)
    have sub: "substr bwm bi 2 = [x, y]"
      by (simp add: substr_def d)
    have d2: "drop (Suc (Suc bi)) bwm = rest"
      using d by (metis drop_Suc list.sel(3) tl_drop)
    have ci: "\<not> isZeroWidth (coverText ! i)" using True "1.prems"(3) by simp
    have mk: "filter isZeroWidth (markerOfPair [x, y]) = markerOfPair [x, y]"
      by (simp add: markerOfPair_zeroWidth)
    have ev: "even (length bwm - (bi + 2))" using "1.prems"(1) two by auto
    have le: "length bwm - (bi + 2) \<le> 2 * (length coverText - (i + 1))"
      using "1.prems"(2) True two by auto
    have step: "interleave coverText bwm i bi result
                  = interleave coverText bwm (i + 1) (bi + 2)
                      ((result @ [coverText ! i]) @ markerOfPair (substr bwm bi 2))"
      using True two by (subst interleave.simps) (simp add: Let_def)
    have "filter isZeroWidth (interleave coverText bwm (i + 1) (bi + 2)
                      ((result @ [coverText ! i]) @ markerOfPair (substr bwm bi 2)))
          = filter isZeroWidth ((result @ [coverText ! i]) @ markerOfPair (substr bwm bi 2))
              @ markersOf (drop (bi + 2) bwm)"
      using "1.IH"(1)[OF True refl two ev le "1.prems"(3)] .
    then show ?thesis
      by (simp add: step sub d d2 ci mk)
  next
    case False
    then have "drop bi bwm = []" using "1.prems" by auto
    then show ?thesis using False by (subst interleave.simps) simp
  qed
qed


lemma embedText_markers:
  assumes "even (length bwm)" "length bwm \<le> 2 * length coverText"
    "\<forall>c\<in>set coverText. \<not> isZeroWidth c"
  shows "filter isZeroWidth (embedText coverText bwm) = markersOf bwm"
proof -
  have "filter isZeroWidth (interleave coverText bwm 0 0 []) = markersOf bwm"
    using interleave_markers[of bwm 0 coverText 0 "[]"] assms by simp
  moreover have "filter isZeroWidth (drop k coverText) = []" for k
    using assms(3) by (auto simp: filter_empty_conv dest: in_set_dropD)
  ultimately show ?thesis by (simp add: embedText_def Let_def)
qed

text \<open>
  What \<^verbatim>\<open>decode\<close> extracts from a stego text made by the embedding loop: the payload that
  was framed, before decryption.
\<close>

lemma text_extract:
  assumes pl: "isPrintableAscii pl"
    and room: "4 * length pl + 8 \<le> length coverText"
    and clean: "\<forall>c\<in>set coverText. \<not> isZeroWidth c"
  shows "TextSteganography_decode pf (embedText coverText (binaryOfString pl @ endMarker)) password
           = Inr (decryptIfPassword pf pl password)"
proof -
  define bwm where "bwm = binaryOfString pl @ endMarker"
  have len: "length bwm = 8 * length pl + 16"
    using binaryOfString_length[OF printable_lt_256[OF pl]] by (simp add: bwm_def endMarker_def)
  have bits: "isBitString bwm" by (simp add: bwm_def binaryOfString_bits endMarker_def)
  have zw: "filter isZeroWidth (embedText coverText bwm) = markersOf bwm"
    using len room clean by (intro embedText_markers) auto
  have ne: "markersOf bwm \<noteq> []" using bits len by (intro markersOf_nonempty) auto
  have bin: "concat (map pairOfMarker (markersOf bwm)) = bwm"
    using bits len by (intro markers_roundtrip) auto
  have idx: "indexOf endMarker bwm = Some (8 * length pl)"
    using indexOf_endMarker_printable[OF pl, of "[]"] by (simp add: bwm_def)
  have tk: "take (8 * length pl) bwm = binaryOfString pl"
    using binaryOfString_length[OF printable_lt_256[OF pl]] by (simp add: bwm_def)
  have restored: "textOfBinary (binaryOfString pl) = pl"
    using textOfBinary_binaryOfString[OF printable_lt_256[OF pl]] .
  show ?thesis
    unfolding TextSteganography_decode_def bwm_def[symmetric]
    by (simp add: zw ne bin idx tk restored Let_def tryCatchNull_def)
qed

section \<open>The image codec\<close>

lemma lsb_written8: "((x AND 0xFE) OR bitOfChar c) AND (1 :: 8 word) = bitOfChar c"
proof -
  have "((x AND 0xFE) OR bitOfChar c) AND (1 :: 8 word)
          = (x AND (0xFE AND 1)) OR (bitOfChar c AND 1)"
    by (simp only: bit.conj_disj_distrib2 and.assoc)
  also have "(0xFE :: 8 word) AND 1 = 0" by simp
  also have "(bitOfChar c :: 8 word) AND 1 = bitOfChar c" by (simp add: bitOfChar_def)
  finally show ?thesis by simp
qed

lemma lsb_written16: "((x AND 0xFFFE) OR bitOfChar c) AND (1 :: 16 word) = bitOfChar c"
proof -
  have "((x AND 0xFFFE) OR bitOfChar c) AND (1 :: 16 word)
          = (x AND (0xFFFE AND 1)) OR (bitOfChar c AND 1)"
    by (simp only: bit.conj_disj_distrib2 and.assoc)
  also have "(0xFFFE :: 16 word) AND 1 = 0" by simp
  also have "(bitOfChar c :: 16 word) AND 1 = bitOfChar c" by (simp add: bitOfChar_def)
  finally show ?thesis by simp
qed

lemma bitChar_bitOfChar8: "c = CHR ''0'' \<or> c = CHR ''1'' \<Longrightarrow> bitChar (unat (bitOfChar c :: 8 word)) = c"
  by (auto simp: bitChar_def bitOfChar_def)

lemma bitChar_bitOfChar16: "c = CHR ''0'' \<or> c = CHR ''1'' \<Longrightarrow> bitChar (unat (bitOfChar c :: 16 word)) = c"
  by (auto simp: bitChar_def bitOfChar_def)

lemma embedRed_length [simp]: "length (embedRed data bs i) = length data"
  by (induction bs arbitrary: data i) simp_all

lemma embedRed_before: "j < i * 4 \<Longrightarrow> embedRed data bs i ! j = data ! j"
  by (induction bs arbitrary: data i) simp_all

lemma embedRed_read:
  "(i + length bs) * 4 \<le> length data \<Longrightarrow> k < length bs \<Longrightarrow>
     embedRed data bs i ! ((i + k) * 4) AND 1 = bitOfChar (bs ! k)"
proof (induction bs arbitrary: data i k)
  case Nil
  then show ?case by simp
next
  case (Cons b bs)
  show ?case
  proof (cases k)
    case 0
    have "i * 4 < length data" using Cons.prems by simp
    then show ?thesis
      using 0 by (simp add: embedRed_before lsb_written8)
  next
    case (Suc k')
    have "embedRed (data[i * 4 := (data ! (i * 4) AND 0xFE) OR bitOfChar b]) bs (i + 1) ! ((i + 1 + k') * 4) AND 1
            = bitOfChar (bs ! k')"
      using Cons.prems Suc by (intro Cons.IH) simp_all
    then show ?thesis using Suc by simp
  qed
qed

text \<open>
  The reading loop stops at the first prefix of the red-channel bits that ends with the
  marker.
\<close>

lemma length_endMarker [simp]: "length endMarker = 16"
  by (simp add: endMarker_def)

lemma extractRed_stops:
  assumes read: "\<forall>k<length bwm. bitChar (unat (data ! (k * 4) AND 1)) = bwm ! k"
    and room: "length bwm * 4 \<le> length data"
    and ends: "endsWith bwm endMarker"
    and first: "\<forall>t<length bwm. \<not> endsWith (take t bwm) endMarker"
  shows "i < length bwm \<Longrightarrow> binary = take i bwm \<Longrightarrow> extractRed data i binary = bwm"
proof (induction "length bwm - i" arbitrary: i binary)
  case 0
  then show ?case by simp
next
  case (Suc d)
  have i4: "i * 4 < length data" using Suc.prems(1) room by simp
  have next_bits: "binary @ [bitChar (unat (data ! (i * 4) AND 1))] = take (Suc i) bwm"
    using Suc.prems read by (simp add: take_Suc_conv_app_nth)
  show ?case
  proof (cases "Suc i = length bwm")
    case True
    then have "take (Suc i) bwm = bwm" by simp
    then show ?thesis
      using i4 ends next_bits by (subst extractRed.simps) (simp add: Let_def)
  next
    case False
    then have lt: "Suc i < length bwm" using Suc.prems(1) by simp
    then have "\<not> endsWith (take (Suc i) bwm) endMarker" using first by simp
    moreover have "extractRed data (Suc i) (take (Suc i) bwm) = bwm"
      using Suc.hyps lt by (intro Suc.hyps(1)) simp_all
    ultimately show ?thesis
      using i4 next_bits by (subst extractRed.simps) (simp add: Let_def)
  qed
qed

lemma framed_bits_shape:
  assumes pl: "isPrintableAscii pl"
  defines "bwm \<equiv> binaryOfString pl @ endMarker"
  shows "endsWith bwm endMarker" and "\<forall>t<length bwm. \<not> endsWith (take t bwm) endMarker"
proof -
  have len: "length bwm = 8 * length pl + 16"
    using binaryOfString_length[OF printable_lt_256[OF pl]] by (simp add: bwm_def)
  show "endsWith bwm endMarker" by (simp add: endsWith_def bwm_def)
  have idx: "indexOf endMarker bwm = Some (8 * length pl)"
    using indexOf_endMarker_printable[OF pl, of "[]"] by (simp add: bwm_def)
  show "\<forall>t<length bwm. \<not> endsWith (take t bwm) endMarker"
  proof (intro allI impI notI)
    fix t assume t: "t < length bwm" and e: "endsWith (take t bwm) endMarker"
    from e have "length endMarker \<le> length (take t bwm)"
      and "drop (length (take t bwm) - length endMarker) (take t bwm) = endMarker"
      by (simp_all add: endsWith_def)
    then have t16: "16 \<le> t" and eq: "drop (t - 16) (take t bwm) = endMarker"
      using t by simp_all
    have "take (length endMarker) (drop (t - 16) bwm) = drop (t - 16) (take t bwm)"
      using t16 t by (simp add: drop_take)
    with eq have "take (length endMarker) (drop (t - 16) bwm) = endMarker" by simp
    moreover have "t - 16 < 8 * length pl" using t len t16 by simp
    ultimately show False using indexOf_least[OF idx] by blast
  qed
qed

lemma image_extract:
  assumes pl: "isPrintableAscii pl"
    and room: "(8 * length pl + 16) * 4 \<le> length canvas"
  shows "ImageSteganography_decode pf (embedRed canvas (binaryOfString pl @ endMarker) 0) password
           = Inr (decryptIfPassword pf pl password)"
proof -
  define bwm where "bwm = binaryOfString pl @ endMarker"
  define data where "data = embedRed canvas bwm 0"
  have len: "length bwm = 8 * length pl + 16"
    using binaryOfString_length[OF printable_lt_256[OF pl]] by (simp add: bwm_def endMarker_def)
  have bits: "isBitString bwm" by (simp add: bwm_def binaryOfString_bits endMarker_def)
  have read: "\<forall>k<length bwm. bitChar (unat (data ! (k * 4) AND 1)) = bwm ! k"
  proof (intro allI impI)
    fix k assume k: "k < length bwm"
    have "data ! ((0 + k) * 4) AND 1 = bitOfChar (bwm ! k)"
      unfolding data_def using room len k by (intro embedRed_read) simp_all
    moreover have "bwm ! k = CHR ''0'' \<or> bwm ! k = CHR ''1''"
      using bits k by (auto simp: isBitString_def)
    ultimately show "bitChar (unat (data ! (k * 4) AND 1)) = bwm ! k"
      by (simp add: bitChar_bitOfChar8)
  qed
  have shape: "endsWith bwm endMarker" "\<forall>t<length bwm. \<not> endsWith (take t bwm) endMarker"
    using framed_bits_shape[OF pl] by (simp_all add: bwm_def)
  have "extractRed data 0 [] = bwm"
    using len room by (intro extractRed_stops[OF read _ shape]) (simp_all add: data_def)
  moreover have "indexOf endMarker bwm = Some (8 * length pl)"
    using indexOf_endMarker_printable[OF pl, of "[]"] by (simp add: bwm_def)
  moreover have "take (8 * length pl) bwm = binaryOfString pl"
    using binaryOfString_length[OF printable_lt_256[OF pl]] by (simp add: bwm_def)
  moreover have "textOfBinary (binaryOfString pl) = pl"
    using textOfBinary_binaryOfString[OF printable_lt_256[OF pl]] .
  ultimately show ?thesis
    unfolding ImageSteganography_decode_def bwm_def[symmetric] data_def[symmetric]
    by (simp add: Let_def tryCatchNull_def)
qed

section \<open>The index sequences of different lengths\<close>

lemma shuffle_drop: "n \<le> length arr \<Longrightarrow> drop n (shuffle state arr n lo) = drop n arr"
proof (induction state arr n lo rule: shuffle.induct)
  case (1 state arr n lo)
  show ?case
  proof (cases "lo < n")
    case True
    define i where "i = n - 1"
    define state' where "state' = prngNext state"
    define j where "j = floorScaled state' (i + 1)"
    define arr2 where "arr2 = arr[i := arr ! j, j := arr ! i]"
    have i: "i < n" using True by (simp add: i_def)
    have "j < i + 1" unfolding j_def by (rule floorScaled_less) simp
    then have j: "j < n" using i by simp
    have step: "shuffle state arr n lo = shuffle state' arr2 (n - 1) lo"
      using True by (subst shuffle.simps) (simp add: Let_def i_def state'_def j_def arr2_def)
    have len: "n - 1 \<le> length arr2" using "1.prems" by (simp add: arr2_def)
    have IH: "drop (n - 1) (shuffle state' arr2 (n - 1) lo) = drop (n - 1) arr2"
      using "1.IH"[OF True refl refl refl refl refl refl] len
      unfolding arr2_def j_def state'_def i_def by simp
    have "drop n (shuffle state' arr2 (n - 1) lo) = drop 1 (drop (n - 1) (shuffle state' arr2 (n - 1) lo))"
      using True by simp
    also have "\<dots> = drop 1 (drop (n - 1) arr2)" by (simp only: IH)
    also have "\<dots> = drop n arr2" using True by simp
    also have "\<dots> = drop n arr" using i j by (simp add: arr2_def)
    finally show ?thesis by (simp add: step)
  next
    case False
    then show ?thesis by (subst shuffle.simps) simp
  qed
qed

lemma shuffle_done: "shuffle state arr n n = arr"
  by (subst shuffle.simps) simp

lemma shuffle_split:
  "lo2 \<le> lo1 \<Longrightarrow> lo1 \<le> n \<Longrightarrow>
     shuffle state arr n lo2
       = shuffle ((prngNext ^^ (n - lo1)) state) (shuffle state arr n lo1) lo1 lo2"
proof (induction state arr n lo1 rule: shuffle.induct)
  case (1 state arr n lo1)
  show ?case
  proof (cases "lo1 < n")
    case True
    define i where "i = n - 1"
    define state' where "state' = prngNext state"
    define j where "j = floorScaled state' (i + 1)"
    define arr2 where "arr2 = arr[i := arr ! j, j := arr ! i]"
    have step1: "shuffle state arr n lo1 = shuffle state' arr2 (n - 1) lo1"
      using True by (subst shuffle.simps) (simp add: Let_def i_def state'_def j_def arr2_def)
    have lo2: "lo2 < n" using True "1.prems" by simp
    have step2: "shuffle state arr n lo2 = shuffle state' arr2 (n - 1) lo2"
      using lo2 by (subst shuffle.simps) (simp add: Let_def i_def state'_def j_def arr2_def)
    have le: "lo1 \<le> n - 1" using True by simp
    have IH: "shuffle state' arr2 (n - 1) lo2
                = shuffle ((prngNext ^^ (n - 1 - lo1)) state') (shuffle state' arr2 (n - 1) lo1) lo1 lo2"
      using "1.IH"[OF True refl refl refl refl refl refl "1.prems"(1) le]
      unfolding arr2_def j_def state'_def i_def by simp
    have fp: "(prngNext ^^ (n - lo1)) state = (prngNext ^^ (n - 1 - lo1)) state'"
    proof -
      have "n - lo1 = Suc (n - 1 - lo1)" using True by simp
      then show ?thesis by (simp only: funpow_Suc_right state'_def comp_def)
    qed
    show ?thesis unfolding step1 step2 fp by (rule IH)
  next
    case False
    then have "lo1 = n" using "1.prems" by simp
    then show ?thesis by (simp add: shuffle_done)
  qed
qed

text \<open>
  The sequence for a smaller count is the tail of the sequence for a larger count, not its
  beginning: the function returns the last \<open>needed\<close> entries of the array.
\<close>

lemma generateIndicesPRNG_suffix:
  assumes "needed1 \<le> needed2" "needed2 \<le> len"
    and "generateIndicesPRNG prng len needed2 = Inr indices2"
  shows "generateIndicesPRNG prng len needed1 = Inr (drop (needed2 - needed1) indices2)"
proof -
  define lo1 where "lo1 = len - needed1"
  define lo2 where "lo2 = len - needed2"
  define A1 where "A1 = shuffle prng [0..<len] len lo1"
  define A2 where "A2 = shuffle prng [0..<len] len lo2"
  have lo: "lo2 \<le> lo1" "lo1 \<le> len" using assms by (simp_all add: lo1_def lo2_def)
  have i2: "indices2 = drop lo2 A2"
    using assms by (simp add: generateIndicesPRNG_def A2_def lo2_def)
  have "A2 = shuffle ((prngNext ^^ (len - lo1)) prng) A1 lo1 lo2"
    unfolding A1_def A2_def using lo by (rule shuffle_split)
  then have "drop lo1 A2 = drop lo1 A1"
    using lo by (simp add: shuffle_drop A1_def shuffle_length)
  moreover have "drop (needed2 - needed1) (drop lo2 A2) = drop lo1 A2"
    using assms by (simp add: lo1_def lo2_def)
  ultimately have "drop (needed2 - needed1) indices2 = drop lo1 A1" by (simp add: i2)
  then show ?thesis
    using assms by (simp add: generateIndicesPRNG_def A1_def lo1_def)
qed

section \<open>The audio codec\<close>

lemma embedLSB_length [simp]: "length (embedLSB samples indices bits) = length samples"
  by (induction samples indices bits rule: embedLSB.induct) simp_all

lemma embedLSB_other: "j \<notin> set indices \<Longrightarrow> embedLSB samples indices bits ! j = samples ! j"
  by (induction samples indices bits rule: embedLSB.induct) auto

lemma embedLSB_read:
  "distinct indices \<Longrightarrow> length indices = length bits \<Longrightarrow> \<forall>i\<in>set indices. i < length samples \<Longrightarrow>
   isBitString bits \<Longrightarrow>
     map (\<lambda>i. bitChar (unat (embedLSB samples indices bits ! i AND 1))) indices = bits"
proof (induction indices arbitrary: samples bits)
  case Nil
  then show ?case by simp
next
  case (Cons i indices)
  then obtain b bs where bits: "bits = b # bs" by (cases bits) auto
  define samples' where "samples' = samples[i := (samples ! i AND 0xFFFE) OR bitOfChar b]"
  have e: "embedLSB samples (i # indices) bits = embedLSB samples' indices bs"
    by (simp add: bits samples'_def)
  have "embedLSB samples' indices bs ! i = samples' ! i"
    using Cons.prems(1) by (intro embedLSB_other) simp
  also have "\<dots> = (samples ! i AND 0xFFFE) OR bitOfChar b"
    using Cons.prems(3) by (simp add: samples'_def)
  finally have hd: "bitChar (unat (embedLSB samples' indices bs ! i AND 1)) = b"
    using Cons.prems(4) by (simp add: bits lsb_written16 bitChar_bitOfChar16)
  have "map (\<lambda>i. bitChar (unat (embedLSB samples' indices bs ! i AND 1))) indices = bs"
    using Cons.prems by (intro Cons.IH) (simp_all add: bits samples'_def)
  with hd show ?case unfolding e by (simp add: bits)
qed

lemma scanBits_short:
  "length redundantStream + length bits1 < (length headerBinary + 32) * 3 \<Longrightarrow>
     scanBits pf headerBinary password (bits1 @ bits2) redundantStream
       = scanBits pf headerBinary password bits2 (redundantStream @ bits1)"
  by (induction bits1 arbitrary: redundantStream) (simp_all add: Let_def)


text \<open>
  What the decoder reads from a silent carrier after \<^verbatim>\<open>encode\<close>: the embedded bits, behind
  as many carrier bits as the decoder's index sequence is longer than the encoder's.
\<close>

lemma audio_stream_of_silence:
  assumes le: "length red \<le> cap" "cap \<le> n"
    and bits: "isBitString red"
    and gen2: "generateIndicesPRNG prng n cap = Inr indices2"
  defines "indices1 \<equiv> drop (cap - length red) indices2"
  shows "generateIndicesPRNG prng n (length red) = Inr indices1"
    and "map (\<lambda>i. bitChar (unat (embedLSB (replicate n 0) indices1 red ! i AND 1))) indices2
           = replicate (cap - length red) CHR ''0'' @ red"
proof -
  from generateIndicesPRNG_ok[OF le(2), of prng] gen2
  have i2: "length indices2 = cap" "distinct indices2" "\<forall>i\<in>set indices2. i < n" by auto
  show g1: "generateIndicesPRNG prng n (length red) = Inr indices1"
    unfolding indices1_def using le gen2 by (rule generateIndicesPRNG_suffix)
  define pre where "pre = take (cap - length red) indices2"
  have split: "indices2 = pre @ indices1" by (simp add: pre_def indices1_def)
  have d1: "distinct indices1" and disj: "set pre \<inter> set indices1 = {}"
    using i2(2) unfolding split by auto
  have l1: "length indices1 = length red" using i2(1) le by (simp add: indices1_def)
  have in1: "\<forall>i\<in>set indices1. i < length (replicate n (0 :: 16 word))"
    using i2(3) by (auto simp: split)
  have tail: "map (\<lambda>i. bitChar (unat (embedLSB (replicate n 0) indices1 red ! i AND 1))) indices1 = red"
    using d1 l1 in1 bits by (rule embedLSB_read)
  have "embedLSB (replicate n 0) indices1 red ! i = 0" if "i \<in> set pre" for i
  proof -
    have "i \<notin> set indices1" using that disj by auto
    then have "embedLSB (replicate n 0) indices1 red ! i = replicate n (0 :: 16 word) ! i"
      by (rule embedLSB_other)
    moreover have "i < n" using that i2(3) by (auto simp: split)
    ultimately show ?thesis by simp
  qed
  then have head: "map (\<lambda>i. bitChar (unat (embedLSB (replicate n 0) indices1 red ! i AND 1))) pre
                     = replicate (length pre) CHR ''0''"
    by (simp add: map_replicate_const[symmetric] bitChar_def cong: map_cong)
  have "length pre = cap - length red" using i2(1) by (simp add: pre_def)
  with head tail show "map (\<lambda>i. bitChar (unat (embedLSB (replicate n 0) indices1 red ! i AND 1))) indices2
           = replicate (cap - length red) CHR ''0'' @ red"
    by (simp add: split)
qed

section \<open>Rules for running the model on concrete inputs\<close>

lemma toBinary_small: "n < 2 \<Longrightarrow> toBinary n = [bitChar n]"
  by (subst toBinary.simps) simp

lemma toBinary_big: "\<not> n < 2 \<Longrightarrow> toBinary n = toBinary (n div 2) @ [bitChar (n mod 2)]"
  by (subst toBinary.simps) simp

lemma bytesToBitString_Cons:
  "bytesToBitString (b # bs) = padStart 8 (toBinary (unat b)) @ bytesToBitString bs"
  by (simp add: bytesToBitString_def)

lemma bytesToBitString_Nil: "bytesToBitString [] = []"
  by (simp add: bytesToBitString_def)

lemma replicate_pos: "0 < n \<Longrightarrow> replicate n x = x # replicate (n - 1) x"
  by (cases n) simp_all

lemmas eval_bits = toBinary_small toBinary_big bytesToBitString_Cons bytesToBitString_Nil
  bitChar_def padStart_def replicate_pos

lemma headerBinary_audio:
  "headerBinaryOf ''USTEGA1'' = ''01010101010100110101010001000101010001110100000100110001''"
  by (simp add: headerBinaryOf_def eval_bits)

lemma frame_of_a:
  assumes "TextEncoder_encode pf (js ''a'') = [0x61]"
  shows "tripleBits (frameBits pf ''USTEGA1'' (js ''a'')) =
   ''000111000111000111000111000111000111000000111111000111000111000111000000000111000000000111000111000111000000000111111111000111000000000000000111000000111111000000000111000000000000000000000000000000000000000000000000000000000000000000000000000000000000000000000111000111111000000000000111''"
  by (simp add: frameBits_def assms headerBinary_audio Let_def eval_bits tripleBits_def)

lemma scan_of_a:
  "scanBits pf ''01010101010100110101010001000101010001110100000100110001'' None
     ''00000111000111000111000111000111000111000000111111000111000111000111000000000111000000000111000111000111000000000111111111000111000000000000000111000000111111000000000111000000000000000000000000000000000000000000000000000000000000000000000000000000000000000000000111000111111000000000000111'' []
   = Completed ''00000111000111000111000111000111000111000000111111000111000111000111000000000111000000000111000111000111000000000111111111000111000000000000000111000000111111000000000111000000000000000000000000000000000000000000000000000000000000000000000000000000000000000000000111000111111000000000000111''"
proof -
  have split: "''00000111000111000111000111000111000111000000111111000111000111000111000000000111000000000111000111000111000000000111111111000111000000000000000111000000111111000000000111000000000000000000000000000000000000000000000000000000000000000000000000000000000000000000000111000111111000000000000111''
    = ''00000111000111000111000111000111000111000000111111000111000111000111000000000111000000000111000111000111000000000111111111000111000000000000000111000000111111000000000111000000000000000000000000000000000000000000000000000000000000000000000000000000000000000000000'' @ ''111000111111000000000000111''"
    by simp
  show ?thesis
    by (subst split, subst scanBits_short) (simp_all add: Let_def parseInt2_def substr_def)
qed

lemma final_of_a:
  "finalAttempt pf ''01010101010100110101010001000101010001110100000100110001'' None
     ''00000111000111000111000111000111000111000000111111000111000111000111000000000111000000000111000111000111000000000111111111000111000000000000000111000000111111000000000111000000000000000000000000000000000000000000000000000000000000000000000000000000000000000000000111000111111000000000000111''
   = None"
  by (simp add: finalAttempt_def extractFrame_def Let_def parseInt2_def substr_def)

text \<open>
  Claim C1 (round trip without password, all four codecs), at an input where the code
  breaks it. The carrier is 363 samples of silence, whose capacity is 1 byte; the message is
  \<^verbatim>\<open>"a"\<close>. \<^verbatim>\<open>encode\<close> succeeds and \<^verbatim>\<open>decode\<close> of its result returns \<^verbatim>\<open>null\<close>: the
  decoder asks the index generator for 290 indices, the encoder asked for 288, so the
  decoder reads two carrier bits ahead of the frame and the last bit of the frame falls
  into an incomplete triplet.
\<close>

theorem audio_round_trip_fails:
  assumes enc: "TextEncoder_encode pf (js ''a'') = [0x61]"
  shows "AudioSteganography_calculateCapacity (replicate 363 0) = 1
         \<and> (\<exists>modifiedSamples.
               snd (AudioSteganography_encode pf (replicate 363 0) (js ''a'') None)
                 = Inr modifiedSamples
               \<and> AudioSteganography_decode pf (Inr modifiedSamples) None = Inr None)"
proof -
  define red where "red = tripleBits (frameBits pf ''USTEGA1'' (js ''a''))"
  define prng where "prng = seededPRNG (js ''default-seed'')"
  have red: "red = ''000111000111000111000111000111000111000000111111000111000111000111000000000111000000000111000111000111000000000111111111000111000000000000000111000000111111000000000111000000000000000000000000000000000000000000000000000000000000000000000000000000000000000000000111000111111000000000000111''"
    unfolding red_def by (rule frame_of_a[OF enc])
  have len: "length red = 288" unfolding red by simp
  have bits: "isBitString red" unfolding red by (simp add: isBitString_def)
  have cap: "floorTimes08 363 = 290" by (simp add: floorTimes08_exact)
  obtain indices2 where gen2: "generateIndicesPRNG prng 363 290 = Inr indices2"
    using generateIndicesPRNG_ok[of 290 363 prng] by auto
  define indices1 where "indices1 = drop (290 - length red) indices2"
  define art where "art = embedLSB (replicate 363 0) indices1 red"
  have gen1: "generateIndicesPRNG prng 363 288 = Inr indices1"
    using audio_stream_of_silence(1)[OF _ _ bits gen2] len by (simp add: indices1_def)
  have "map (\<lambda>i. bitChar (unat (art ! i AND 1))) indices2
          = replicate (290 - length red) CHR ''0'' @ red"
    unfolding art_def indices1_def
    using len by (intro audio_stream_of_silence(2)[OF _ _ bits gen2]) simp_all
  then have stream: "map (\<lambda>i. bitChar (unat (art ! i AND 1))) indices2
      = ''00000111000111000111000111000111000111000000111111000111000111000111000000000111000000000111000111000111000000000111111111000111000000000000000111000000111111000000000111000000000000000000000000000000000000000000000000000000000000000000000000000000000000000000000111000111111000000000000111''"
    by (simp add: len replicate_pos red)
  have lart: "length art = 363" by (simp add: art_def)
  have e: "AudioSteganography_encode pf (replicate 363 0) (js ''a'') None
             = (replicate 363 0, Inr art)"
    unfolding AudioSteganography_encode_def messageToEncode_def seedOf_def
    by (simp add: red_def[symmetric] len cap prng_def[symmetric] gen1 art_def Let_def)
  have d: "AudioSteganography_decode pf (Inr art) None = Inr None"
    unfolding AudioSteganography_decode_def seedOf_def
    by (simp add: lart cap prng_def[symmetric] gen2 Let_def headerBinary_audio stream
        scan_of_a final_of_a tryCatchNull_def del: scanBits.simps)
  have c: "AudioSteganography_calculateCapacity (replicate 363 0) = 1"
    by (simp add: AudioSteganography_calculateCapacity_def cap)
  show ?thesis using c e d by simp
qed

theorem audio_round_trip_fails_witness:
  "TextEncoder_encode toyPlatform (js ''a'') = [0x61]
   \<and> AudioSteganography_calculateCapacity (replicate 363 0) = 1
   \<and> (\<exists>modifiedSamples.
         snd (AudioSteganography_encode toyPlatform (replicate 363 0) (js ''a'') None)
           = Inr modifiedSamples
         \<and> AudioSteganography_decode toyPlatform (Inr modifiedSamples) None = Inr None)"
proof -
  have h: "TextEncoder_encode toyPlatform (js ''a'') = [0x61]"
    by (simp add: toyPlatform_def js_def)
  show ?thesis using h audio_round_trip_fails [OF h] by simp
qed


section \<open>Text capacity\<close>

lemma interleave_stop:
  "\<not> (i < length coverText \<and> binaryIndex < length binaryWithMarker) \<Longrightarrow>
     interleave coverText binaryWithMarker i binaryIndex result = result"
  by (subst interleave.simps) auto

lemma interleave_pair:
  "i < length coverText \<Longrightarrow> binaryIndex + 1 < length binaryWithMarker \<Longrightarrow>
     interleave coverText binaryWithMarker i binaryIndex result
       = interleave coverText binaryWithMarker (i + 1) (binaryIndex + 2)
           ((result @ [coverText ! i]) @ markerOfPair (substr binaryWithMarker binaryIndex 2))"
  by (subst interleave.simps) (simp add: Let_def)

lemma interleave_last_odd:
  "i < length coverText \<Longrightarrow> binaryIndex < length binaryWithMarker \<Longrightarrow>
   \<not> binaryIndex + 1 < length binaryWithMarker \<Longrightarrow>
     interleave coverText binaryWithMarker i binaryIndex result
       = interleave coverText binaryWithMarker (i + 1) binaryIndex (result @ [coverText ! i])"
  by (subst interleave.simps) (simp add: Let_def)

lemmas eval_text = interleave_stop interleave_pair interleave_last_odd binaryOfString_Cons
  embedText_def markerOfPair_def pairOfMarker_def isZeroWidth_def substr_def endMarker_def
  ZERO_WIDTH_SPACE_def ZERO_WIDTH_NON_JOINER_def ZERO_WIDTH_JOINER_def
  ZERO_WIDTH_NO_BREAK_SPACE_def js_def

text \<open>
  Claim C4 (the text encoder fails with CapacityExceeded exactly when
  \<open>ceil(frameBitLength / 2) > coverText.length\<close>), at an input where the code breaks it:
  the cover text \<^verbatim>\<open>"ab"\<close> and the message \<^verbatim>\<open>"hi"\<close>, whose frame of 32 bits needs 16
  characters. \<^verbatim>\<open>encode\<close> raises nothing and returns the two characters with the first two
  markers.
\<close>

theorem text_encode_truncates_without_error:
  "(length (binaryOfString (messageToEncode pf (js ''hi'') None) @ endMarker) + 1) div 2 = 16
   \<and> length (js ''ab'') = 2
   \<and> TextSteganography_encode pf (js ''ab'') (js ''hi'') None
       = (js ''ab'', Inr [0x61, 0x200C, 0x62, 0x200D])"
  by (simp add: TextSteganography_encode_def messageToEncode_def Let_def eval_text eval_bits)

text \<open>The copy of the method that has the check satisfies the claim.\<close>

lemma text_encode_checked_capacity:
  "(\<exists>msg. snd (TextSteganography_encode_checked pf coverText m pw) = Inl (CapacityExceeded msg))
     = (length coverText
          < (length (binaryOfString (messageToEncode pf m pw) @ endMarker) + 1) div 2)"
  "length coverText \<ge> (length (binaryOfString (messageToEncode pf m pw) @ endMarker) + 1) div 2
     \<Longrightarrow> \<exists>stegoText. snd (TextSteganography_encode_checked pf coverText m pw) = Inr stegoText"
  by (simp_all add: TextSteganography_encode_checked_def Let_def)

lemma frame_bit_length:
  "\<forall>c\<in>set (messageToEncode pf m pw). unat c < 256 \<Longrightarrow>
     length (binaryOfString (messageToEncode pf m pw) @ endMarker)
       = 8 * length (messageToEncode pf m pw) + 16"
  by (simp add: binaryOfString_length)

section \<open>Failure before mutation\<close>

lemma embedFrames_never_throws: "snd (embedFrames seed bits frameIdx bitIndex fs) = None"
proof (induction fs arbitrary: frameIdx bitIndex)
  case Nil
  then show ?case by simp
next
  case (Cons data rest)
  show ?case
  proof (cases "bitIndex < length bits")
    case True
    define pixels where "pixels = length data div 4"
    define available where "available = min (ceilTimes03 pixels) (length bits - bitIndex)"
    have "available \<le> pixels" using ceilTimes03_le[of pixels] by (simp add: available_def)
    from generateIndicesPRNG_ok[OF this, of "seededPRNG (frameSeed seed frameIdx)"]
    obtain pixelIndices where
      g: "generateIndicesPRNG (seededPRNG (frameSeed seed frameIdx)) pixels available = Inr pixelIndices"
      by blast
    show ?thesis
      using True g Cons.IH
      by (simp add: Let_def pixels_def[symmetric] available_def[symmetric] split_def)
  next
    case False
    then show ?thesis by simp
  qed
qed

lemma video_encode_too_large:
  assumes "floorTimes03 (length (frames v) * width v * height v)
             < length (tripleBits (frameBits pf ''VSTEGA1'' (messageToEncode pf m pw)))"
  shows "VideoSteganography_encode pf v m pw
           = (v, Inl (CapacityExceeded ''Message too large for this video''))"
  using assms by (simp add: VideoSteganography_encode_def Let_def)

lemma image_encode_too_large:
  assumes "length canvas < length (binaryOfString (messageToEncode pf m pw) @ endMarker) * 4"
  shows "ImageSteganography_encode pf canvas m pw
           = (canvas, Inl (CapacityExceeded ''Message too large for this image''))"
  using assms by (simp add: ImageSteganography_encode_def Let_def)

lemma tripleBits_length [simp]: "length (tripleBits x) = 3 * length x"
  by (induction x) (simp_all add: tripleBits_def)

lemma frameBits_length_ge: "32 \<le> length (frameBits pf header message)"
  by (simp add: frameBits_def Let_def padStart_def)

lemma frameBits_nonempty: "frameBits pf header message \<noteq> []"
  using frameBits_length_ge[of pf header message] by auto

text \<open>
  Claim C9. For every codec, a failing \<^verbatim>\<open>encode\<close> leaves the carrier as it was: the text
  and audio encoders never write to the carrier (the cover text is immutable, the samples
  are copied after the capacity check); the image and video encoders write in place, and
  their only failure is the capacity check that precedes the embedding loop (the size check
  of the index generator cannot fire inside the video loop).
\<close>

theorem failed_encode_leaves_carrier_unchanged:
  "fst (TextSteganography_encode pf coverText m pw) = coverText
   \<and> fst (TextSteganography_encode_checked pf coverText m pw) = coverText
   \<and> fst (AudioSteganography_encode pf samples m pw) = samples
   \<and> (snd (ImageSteganography_encode pf canvas m pw) = Inl e
        \<longrightarrow> fst (ImageSteganography_encode pf canvas m pw) = canvas)
   \<and> (snd (VideoSteganography_encode pf v m pw) = Inl e
        \<longrightarrow> fst (VideoSteganography_encode pf v m pw) = v)"
proof -
  have t: "fst (TextSteganography_encode pf coverText m pw) = coverText"
    by (simp add: TextSteganography_encode_def Let_def)
  have tc: "fst (TextSteganography_encode_checked pf coverText m pw) = coverText"
    by (simp add: TextSteganography_encode_checked_def Let_def)
  have a: "fst (AudioSteganography_encode pf samples m pw) = samples"
    by (simp add: AudioSteganography_encode_def Let_def split: sum.splits)
  have i: "snd (ImageSteganography_encode pf canvas m pw) = Inl e
        \<longrightarrow> fst (ImageSteganography_encode pf canvas m pw) = canvas"
    by (simp add: ImageSteganography_encode_def Let_def)
  have v: "snd (VideoSteganography_encode pf v m pw) = Inl e
        \<longrightarrow> fst (VideoSteganography_encode pf v m pw) = v"
    using embedFrames_never_throws[of "seedOf pf pw"
        "tripleBits (frameBits pf ''VSTEGA1'' (messageToEncode pf m pw))" 0 0 "frames v"]
    by (simp add: VideoSteganography_encode_def Let_def split_def)
  show ?thesis using t tc a i v by blast
qed

theorem failed_encode_leaves_carrier_unchanged_witness:
  "snd (ImageSteganography_encode toyPlatform (replicate 4 0) (js ''ok'') None)
     = Inl (CapacityExceeded ''Message too large for this image'')
   \<and> fst (ImageSteganography_encode toyPlatform (replicate 4 0) (js ''ok'') None) = replicate 4 0
   \<and> snd (VideoSteganography_encode toyPlatform
            \<lparr>frames = [replicate 4 0], width = 1, height = 1\<rparr> (js ''ok'') None)
     = Inl (CapacityExceeded ''Message too large for this video'')
   \<and> fst (VideoSteganography_encode toyPlatform
            \<lparr>frames = [replicate 4 0], width = 1, height = 1\<rparr> (js ''ok'') None)
     = \<lparr>frames = [replicate 4 0], width = 1, height = 1\<rparr>"
proof -
  have i: "snd (ImageSteganography_encode toyPlatform (replicate 4 0) (js ''ok'') None)
     = Inl (CapacityExceeded ''Message too large for this image'')"
    by (subst image_encode_too_large) simp_all
  have "floorTimes03 1 = 0" by (simp add: floorTimes03_def roundToDouble_exact)
  then have v: "snd (VideoSteganography_encode toyPlatform
            \<lparr>frames = [replicate 4 0], width = 1, height = 1\<rparr> (js ''ok'') None)
     = Inl (CapacityExceeded ''Message too large for this video'')"
    by (subst video_encode_too_large) (simp_all add: frameBits_nonempty)
  show ?thesis
    using i v
      failed_encode_leaves_carrier_unchanged [of toyPlatform "[]" "js ''ok''" None "[]"
        "replicate 4 0" "CapacityExceeded ''Message too large for this image''"
        "\<lparr>frames = [replicate 4 0], width = 1, height = 1\<rparr>"]
      failed_encode_leaves_carrier_unchanged [of toyPlatform "[]" "js ''ok''" None "[]"
        "replicate 4 0" "CapacityExceeded ''Message too large for this video''"
        "\<lparr>frames = [replicate 4 0], width = 1, height = 1\<rparr>"]
    by simp
qed

section \<open>The video codec\<close>

lemma selectedPixels_props:
  assumes "count \<le> ceilTimes03 (length data div 4)"
  shows "generateIndicesPRNG (seededPRNG (frameSeed seed i)) (length data div 4) count
           = Inr (selectedPixels seed i data count)"
    and "length (selectedPixels seed i data count) = count"
    and "distinct (selectedPixels seed i data count)"
    and "\<forall>p\<in>set (selectedPixels seed i data count). p < length data div 4"
proof -
  have "count \<le> length data div 4" using assms ceilTimes03_le[of "length data div 4"] by simp
  from generateIndicesPRNG_ok[OF this, of "seededPRNG (frameSeed seed i)"]
  obtain idx where g: "generateIndicesPRNG (seededPRNG (frameSeed seed i)) (length data div 4) count = Inr idx"
    and p: "length idx = count" "distinct idx" "\<forall>p\<in>set idx. p < length data div 4" by blast
  have s: "selectedPixels seed i data count = idx" by (simp add: selectedPixels_def g)
  show "generateIndicesPRNG (seededPRNG (frameSeed seed i)) (length data div 4) count
           = Inr (selectedPixels seed i data count)" by (simp add: s g)
  show "length (selectedPixels seed i data count) = count" by (simp add: s p)
  show "distinct (selectedPixels seed i data count)" by (simp add: s p)
  show "\<forall>p\<in>set (selectedPixels seed i data count). p < length data div 4" using p(3) by (simp add: s)
qed

lemma embedBlue_length [simp]: "length (embedBlue data pixelIndices bits) = length data"
  by (induction data pixelIndices bits rule: embedBlue.induct) simp_all

lemma embedBlue_other:
  "j \<notin> (\<lambda>p. p * 4 + 2) ` set pixelIndices \<Longrightarrow> embedBlue data pixelIndices bits ! j = data ! j"
  by (induction data pixelIndices bits rule: embedBlue.induct) auto

lemma embedBlue_written:
  "distinct pixelIndices \<Longrightarrow> k < length pixelIndices \<Longrightarrow> k < length bits \<Longrightarrow>
   \<forall>p\<in>set pixelIndices. p * 4 + 2 < length data \<Longrightarrow>
     embedBlue data pixelIndices bits ! (pixelIndices ! k * 4 + 2)
       = (data ! (pixelIndices ! k * 4 + 2) AND 0xFE) OR bitOfChar (bits ! k)"
proof (induction pixelIndices arbitrary: data bits k)
  case Nil
  then show ?case by simp
next
  case (Cons p ps)
  then obtain b bs where bits: "bits = b # bs" by (cases bits) auto
  define data' where "data' = data[p * 4 + 2 := (data ! (p * 4 + 2) AND 0xFE) OR bitOfChar b]"
  have e: "embedBlue data (p # ps) bits = embedBlue data' ps bs" by (simp add: bits data'_def)
  show ?case
  proof (cases k)
    case 0
    have "p * 4 + 2 \<notin> (\<lambda>q. q * 4 + 2) ` set ps" using Cons.prems(1) by auto
    then have "embedBlue data' ps bs ! (p * 4 + 2) = data' ! (p * 4 + 2)" by (rule embedBlue_other)
    then show ?thesis unfolding e using Cons.prems(4) 0 by (simp add: bits data'_def)
  next
    case (Suc k')
    have ne: "ps ! k' \<noteq> p" using Cons.prems(1,2) Suc by auto
    have "embedBlue data' ps bs ! (ps ! k' * 4 + 2)
            = (data' ! (ps ! k' * 4 + 2) AND 0xFE) OR bitOfChar (bs ! k')"
      using Cons.prems Suc by (intro Cons.IH) (simp_all add: bits data'_def)
    moreover have "data' ! (ps ! k' * 4 + 2) = data ! (ps ! k' * 4 + 2)" using ne by (simp add: data'_def)
    ultimately show ?thesis unfolding e using Suc by (simp add: bits)
  qed
qed

lemma embedFrames_length: "length (fst (embedFrames seed bits i0 b fs)) = length fs"
proof (induction fs arbitrary: i0 b)
  case Nil
  then show ?case by simp
next
  case (Cons data rest)
  define count where "count = min (ceilTimes03 (length data div 4)) (length bits - b)"
  have g: "generateIndicesPRNG (seededPRNG (frameSeed seed i0)) (length data div 4) count
             = Inr (selectedPixels seed i0 data count)"
    by (rule selectedPixels_props) (simp add: count_def)
  show ?case using Cons.IH g by (simp add: Let_def count_def[symmetric] split_def)
qed

lemma embedFrames_nth:
  "i < length fs \<Longrightarrow>
     fst (embedFrames seed bits i0 b fs) ! i
       = embedBlue (fs ! i)
           (selectedPixels seed (i0 + i) (fs ! i)
              (min (ceilTimes03 (length (fs ! i) div 4))
                 (length bits - bitIndexAfter bits b (take i fs))))
           (drop (bitIndexAfter bits b (take i fs)) bits)"
proof (induction fs arbitrary: i0 b i)
  case Nil
  then show ?case by simp
next
  case (Cons data rest)
  define count where "count = min (ceilTimes03 (length data div 4)) (length bits - b)"
  have c: "count \<le> ceilTimes03 (length data div 4)" by (simp add: count_def)
  note sp = selectedPixels_props[OF c, of seed i0]
  show ?case
  proof (cases "b < length bits")
    case True
    have step: "fst (embedFrames seed bits i0 b (data # rest))
                  = embedBlue data (selectedPixels seed i0 data count) (drop b bits)
                    # fst (embedFrames seed bits (i0 + 1) (b + count) rest)"
      using True sp(1,2) by (simp add: Let_def count_def[symmetric] split_def) (simp add: count_def)
    show ?thesis
    proof (cases i)
      case 0
      then show ?thesis unfolding step by (simp add: count_def)
    next
      case (Suc i')
      then have "i' < length rest" using Cons.prems by simp
      from Cons.IH[OF this, of "i0 + 1" "b + count"]
      show ?thesis unfolding step by (simp add: Suc count_def)
    qed
  next
    case False
    then have z: "count = 0" by (simp add: count_def)
    have stay: "bitIndexAfter bits b xs = b" for xs
      using False by (induction xs) simp_all
    have sel0: "selectedPixels seed j d 0 = []" for j d
      using selectedPixels_props(2)[of 0 d seed j] by simp
    have "fst (embedFrames seed bits i0 b (data # rest)) = data # rest" using False by simp
    then show ?thesis using False by (simp add: stay sel0)
  qed
qed

lemma scanBits_append:
  "scanBits pf hb pw (xs @ ys) s
     = (case scanBits pf hb pw xs s of
          Returned r \<Rightarrow> Returned r
        | Completed s' \<Rightarrow> scanBits pf hb pw ys s')"
  by (induction xs arbitrary: s) (simp_all add: Let_def split: option.splits)

lemma scanFrames_stream:
  "scanFrames pf hb seed pw i0 fs s
     = (case scanBits pf hb pw (blueStream seed i0 fs) s of
          Returned r \<Rightarrow> Inr (Returned r)
        | Completed s' \<Rightarrow> Inr (Completed s'))"
proof (induction fs arbitrary: i0 s)
  case Nil
  then show ?case by simp
next
  case (Cons data rest)
  have g: "generateIndicesPRNG (seededPRNG (frameSeed seed i0)) (length data div 4)
             (ceilTimes03 (length data div 4))
           = Inr (selectedPixels seed i0 data (ceilTimes03 (length data div 4)))"
    by (rule selectedPixels_props) simp
  show ?case
    using Cons.IH
    by (simp add: Let_def g scanBits_append blueBitsRead_def split: loop.splits)
qed

lemma blueStream_concat:
  "blueStream seed i0 fs
     = concat (map (\<lambda>i. blueBitsRead (fs ! i)
                 (selectedPixels seed (i0 + i) (fs ! i) (ceilTimes03 (length (fs ! i) div 4))))
               [0..<length fs])"
proof (induction fs arbitrary: i0)
  case Nil
  then show ?case by simp
next
  case (Cons data rest)
  have "[0..<length (data # rest)] = 0 # map Suc [0..<length rest]"
    by (simp add: upt_conv_Cons map_Suc_upt del: upt_Suc)
  then show ?case using Cons.IH[of "i0 + 1"] by (simp add: comp_def del: upt_Suc)
qed

lemma video_encode_fits:
  assumes "length (tripleBits (frameBits pf ''VSTEGA1'' (messageToEncode pf m pw)))
             \<le> floorTimes03 (length (frames v) * width v * height v)"
  shows "VideoSteganography_encode pf v m pw
           = (v\<lparr>frames := fst (embedFrames (seedOf pf pw)
                  (tripleBits (frameBits pf ''VSTEGA1'' (messageToEncode pf m pw))) 0 0 (frames v))\<rparr>,
              Inr (v\<lparr>frames := fst (embedFrames (seedOf pf pw)
                  (tripleBits (frameBits pf ''VSTEGA1'' (messageToEncode pf m pw))) 0 0 (frames v))\<rparr>))"
  using assms embedFrames_never_throws[of "seedOf pf pw"
      "tripleBits (frameBits pf ''VSTEGA1'' (messageToEncode pf m pw))" 0 0 "frames v"]
  by (simp add: VideoSteganography_encode_def Let_def split_def)

lemma video_decode_stream:
  "VideoSteganography_decode pf (Inr v) pw
     = Inr (case scanBits pf (headerBinaryOf ''VSTEGA1'') pw (blueStream (seedOf pf pw) 0 (frames v)) [] of
              Returned r \<Rightarrow> r
            | Completed redundantStream \<Rightarrow>
                finalAttempt pf (headerBinaryOf ''VSTEGA1'') pw redundantStream)"
  by (simp add: VideoSteganography_decode_def Let_def scanFrames_stream tryCatchNull_def
      split: loop.splits)

text \<open>
  Claim C8. In the video codec, for every frame index \<open>i\<close>: the seed of the frame is the base
  seed, \<^verbatim>\<open>":"\<close> and \<open>i\<close>; \<^verbatim>\<open>encode\<close> selects with the index generator
  \<open>min(ceil(pixels \<times> 0.3), remaining bits)\<close> distinct pixels of the frame and writes the next
  bits into the least-significant bit of their blue channel, leaving every other byte as it
  was; \<^verbatim>\<open>decode\<close> selects \<open>ceil(pixels \<times> 0.3)\<close> distinct pixels from the same seed and reads
  the least-significant bit of their blue channel, frame after frame (\<open>ceil\<close> of the double
  product is the ceiling of the exact product).
\<close>

theorem video_frame_selection:
  fixes pf :: platform and v :: video and m :: jsstring and pw :: "jsstring option" and i :: nat
  defines "seed \<equiv> seedOf pf pw"
    and "red \<equiv> tripleBits (frameBits pf ''VSTEGA1'' (messageToEncode pf m pw))"
    and "data \<equiv> frames v ! i"
  defines "pixels \<equiv> length data div 4"
    and "bitIndex \<equiv> bitIndexAfter red 0 (take i (frames v))"
  defines "count \<equiv> min (ceilTimes03 pixels) (length red - bitIndex)"
  defines "written \<equiv> selectedPixels seed i data count"
    and "readAt \<equiv> selectedPixels seed i data (ceilTimes03 pixels)"
    and "out \<equiv> fst (VideoSteganography_encode pf v m pw)"
  assumes i: "i < length (frames v)"
    and small: "length (frames v ! i) div 4 < 2 ^ 50"
    and fits: "length red \<le> floorTimes03 (length (frames v) * width v * height v)"
  shows "frameSeed seed i = seed @ js '':'' @ js (decimal i)
    \<and> int (ceilTimes03 pixels) = \<lceil>real pixels * 0.3\<rceil>
    \<and> generateIndicesPRNG (seededPRNG (frameSeed seed i)) pixels count = Inr written
    \<and> length written = count \<and> distinct written \<and> (\<forall>p\<in>set written. p < pixels)
    \<and> snd (VideoSteganography_encode pf v m pw) = Inr out
    \<and> (\<forall>k<count. frames out ! i ! (written ! k * 4 + 2)
           = (data ! (written ! k * 4 + 2) AND 0xFE) OR bitOfChar (red ! (bitIndex + k)))
    \<and> (\<forall>j. j \<notin> (\<lambda>p. p * 4 + 2) ` set written \<longrightarrow> frames out ! i ! j = data ! j)
    \<and> generateIndicesPRNG (seededPRNG (frameSeed seed i)) pixels (ceilTimes03 pixels) = Inr readAt
    \<and> length readAt = ceilTimes03 pixels \<and> distinct readAt \<and> (\<forall>p\<in>set readAt. p < pixels)
    \<and> VideoSteganography_decode pf (Inr v) pw
        = Inr (case scanBits pf (headerBinaryOf ''VSTEGA1'') pw
                 (concat (map (\<lambda>i. blueBitsRead (frames v ! i)
                            (selectedPixels seed i (frames v ! i)
                               (ceilTimes03 (length (frames v ! i) div 4))))
                          [0..<length (frames v)])) [] of
                 Returned r \<Rightarrow> r
               | Completed redundantStream \<Rightarrow>
                   finalAttempt pf (headerBinaryOf ''VSTEGA1'') pw redundantStream)"
proof -
  have c1: "frameSeed seed i = seed @ js '':'' @ js (decimal i)" by (simp add: frameSeed_def)
  have c2: "int (ceilTimes03 pixels) = \<lceil>real pixels * 0.3\<rceil>"
    using small unfolding pixels_def data_def by (rule ceilTimes03_real)
  have cnt: "count \<le> ceilTimes03 (length data div 4)" by (simp add: count_def pixels_def)
  note w = selectedPixels_props[OF cnt, of seed i, folded written_def pixels_def]
  have "ceilTimes03 pixels \<le> ceilTimes03 (length data div 4)" by (simp add: pixels_def)
  note r = selectedPixels_props[OF this, of seed i, folded readAt_def pixels_def]
  have enc: "VideoSteganography_encode pf v m pw
           = (v\<lparr>frames := fst (embedFrames seed red 0 0 (frames v))\<rparr>,
              Inr (v\<lparr>frames := fst (embedFrames seed red 0 0 (frames v))\<rparr>))"
    unfolding seed_def red_def using fits[unfolded red_def] by (rule video_encode_fits)
  have c5: "snd (VideoSteganography_encode pf v m pw) = Inr out" by (simp add: out_def enc)
  have fr: "frames out ! i = embedBlue data written (drop bitIndex red)"
    using embedFrames_nth[OF i, of seed red 0 0]
    by (simp add: out_def enc written_def count_def pixels_def data_def bitIndex_def)
  have inb: "\<forall>p\<in>set written. p * 4 + 2 < length data"
  proof
    fix p assume "p \<in> set written"
    then have "p < length data div 4" using w(4) by (simp add: pixels_def)
    then show "p * 4 + 2 < length data" by simp
  qed
  have c6: "\<forall>k<count. frames out ! i ! (written ! k * 4 + 2)
           = (data ! (written ! k * 4 + 2) AND 0xFE) OR bitOfChar (red ! (bitIndex + k))"
  proof (intro allI impI)
    fix k assume k: "k < count"
    then have kl: "k < length (drop bitIndex red)" by (simp add: count_def)
    have "embedBlue data written (drop bitIndex red) ! (written ! k * 4 + 2)
            = (data ! (written ! k * 4 + 2) AND 0xFE) OR bitOfChar (drop bitIndex red ! k)"
      using w(3) k w(2) kl inb by (intro embedBlue_written) simp_all
    moreover have "drop bitIndex red ! k = red ! (bitIndex + k)" using kl by simp
    ultimately show "frames out ! i ! (written ! k * 4 + 2)
           = (data ! (written ! k * 4 + 2) AND 0xFE) OR bitOfChar (red ! (bitIndex + k))"
      by (simp add: fr)
  qed
  have c7: "\<forall>j. j \<notin> (\<lambda>p. p * 4 + 2) ` set written \<longrightarrow> frames out ! i ! j = data ! j"
    by (simp add: fr embedBlue_other)
  have c8: "VideoSteganography_decode pf (Inr v) pw
        = Inr (case scanBits pf (headerBinaryOf ''VSTEGA1'') pw
                 (concat (map (\<lambda>i. blueBitsRead (frames v ! i)
                            (selectedPixels seed i (frames v ! i)
                               (ceilTimes03 (length (frames v ! i) div 4))))
                          [0..<length (frames v)])) [] of
                 Returned r \<Rightarrow> r
               | Completed redundantStream \<Rightarrow>
                   finalAttempt pf (headerBinaryOf ''VSTEGA1'') pw redundantStream)"
    using blueStream_concat[of seed 0 "frames v"]
    by (simp add: video_decode_stream seed_def)
  show ?thesis using c1 c2 w r c5 c6 c7 c8 by blast
qed

theorem video_frame_selection_witness:
  "0 < length (frames \<lparr>frames = [replicate 4000 0], width = 50, height = 20\<rparr>)
   \<and> length (frames \<lparr>frames = [replicate 4000 0], width = 50, height = 20\<rparr> ! 0) div 4 < 2 ^ 50
   \<and> length (tripleBits (frameBits toyPlatform ''VSTEGA1'' (messageToEncode toyPlatform [] None)))
        \<le> floorTimes03 (length (frames \<lparr>frames = [replicate 4000 0], width = 50, height = 20\<rparr>)
             * width \<lparr>frames = [replicate 4000 0], width = 50, height = 20\<rparr>
             * height \<lparr>frames = [replicate 4000 0], width = 50, height = 20\<rparr>)
   \<and> frameSeed (seedOf toyPlatform None) 0 = js ''default-seed:0''
   \<and> snd (VideoSteganography_encode toyPlatform
             \<lparr>frames = [replicate 4000 0], width = 50, height = 20\<rparr> [] None)
       = Inr (fst (VideoSteganography_encode toyPlatform
             \<lparr>frames = [replicate 4000 0], width = 50, height = 20\<rparr> [] None))"
proof -
  have "264 * 2 ^ 54 \<le> roundToDouble (1000 * 5404319552844595)"
    by (rule roundToDouble_ge_representable) simp_all
  then have "264 \<le> roundToDouble (1000 * 5404319552844595) div 2 ^ 54"
    by (simp add: less_eq_div_iff_mult_less_eq)
  then have cap: "264 \<le> floorTimes03 1000" by (simp add: floorTimes03_def)
  have len: "length (tripleBits (frameBits toyPlatform ''VSTEGA1''
                                  (messageToEncode toyPlatform [] None))) = 264"
    by (simp add: frameBits_def headerBinaryOf_def messageToEncode_def toyPlatform_def eval_bits)
  have h1: "0 < length (frames \<lparr>frames = [replicate 4000 0], width = 50, height = 20\<rparr>)"
    by simp
  have h2: "length (frames \<lparr>frames = [replicate 4000 0], width = 50, height = 20\<rparr> ! 0) div 4
              < 2 ^ 50"
    by simp
  have h3: "length (tripleBits (frameBits toyPlatform ''VSTEGA1'' (messageToEncode toyPlatform [] None)))
        \<le> floorTimes03 (length (frames \<lparr>frames = [replicate 4000 0], width = 50, height = 20\<rparr>)
             * width \<lparr>frames = [replicate 4000 0], width = 50, height = 20\<rparr>
             * height \<lparr>frames = [replicate 4000 0], width = 50, height = 20\<rparr>)"
    unfolding len using cap by simp
  have d: "js (decimal 0) = js ''0''" by (simp add: decimal.simps char_of_def bit_0)
  have s: "frameSeed (seedOf toyPlatform None) 0 = js ''default-seed:0''"
    unfolding frameSeed_def d by (simp add: seedOf_def js_def)
  from video_frame_selection [OF h1 h2 h3]
  have "snd (VideoSteganography_encode toyPlatform
             \<lparr>frames = [replicate 4000 0], width = 50, height = 20\<rparr> [] None)
       = Inr (fst (VideoSteganography_encode toyPlatform
             \<lparr>frames = [replicate 4000 0], width = 50, height = 20\<rparr> [] None))"
    by blast
  with h1 h2 h3 s show ?thesis by blast
qed

end
